theory Spec2Isabelle
  imports Complex_Main "HOL-Library.Multiset" "HOL-Library.Product_Lexorder"
begin

section \<open>Python values\<close>

text \<open>
  Decoded JSON documents and the dictionaries the services build. A dictionary is the
  list of its items in insertion order, its keys pairwise distinct as in every Python
  dict; a number is a rational (Python's \<open>int\<close> and finite \<open>float\<close> values, with exact
  arithmetic); \<open>JNull\<close> is \<open>None\<close>.
\<close>

datatype json =
    JNull
  | JBool bool
  | JNum rat
  | JStr string
  | JArr "json list"
  | JObj "(string \<times> json) list"

type_synonym dict = "(string \<times> json) list"

text \<open>
  The exceptions of the modelled code. \<open>NoCredentials\<close> is
  \<open>RuntimeError("No Alpha Vantage API keys configured.")\<close>; \<open>AvError data\<close> is the
  \<open>RuntimeError(str(data))\<close> of \<open>_raise_if_av_error\<close>; \<open>RetryError n e\<close> is tenacity's
  \<open>RetryError\<close>, whose last attempt has number \<open>n\<close> and raised \<open>e\<close>; \<open>Raised msg\<close> is
  an exception that comes from outside the modelled code (the HTTP transport, the
  file system), with its text.
\<close>

datatype error =
    NoCredentials
  | IndexError
  | TypeError
  | AttributeError
  | KeyError
  | AvError json
  | RetryError nat error
  | Raised string

text \<open>\<open>key in d\<close>, \<open>d.get(key)\<close> and \<open>d.get(key, default)\<close>.\<close>

definition dict_has :: "dict \<Rightarrow> string \<Rightarrow> bool" where
  "dict_has d k = (map_of d k \<noteq> None)"

definition dict_get_default :: "dict \<Rightarrow> string \<Rightarrow> json \<Rightarrow> json" where
  "dict_get_default d k dflt = (case map_of d k of None \<Rightarrow> dflt | Some v \<Rightarrow> v)"

definition dict_get :: "dict \<Rightarrow> string \<Rightarrow> json" where
  "dict_get d k = dict_get_default d k JNull"

text \<open>\<open>d[key] = v\<close>: an existing key keeps its position, a new key goes last.\<close>

fun dict_set :: "string \<Rightarrow> json \<Rightarrow> dict \<Rightarrow> dict" where
  "dict_set k v [] = [(k, v)]"
| "dict_set k v ((k', v') # d) =
     (if k' = k then (k, v) # d else (k', v') # dict_set k v d)"

text \<open>
  \<open>xs[i]\<close> for an integer \<open>i\<close>: a negative index counts from the end, and an index
  outside the list raises \<open>IndexError\<close>.
\<close>

definition py_index :: "'a list \<Rightarrow> int \<Rightarrow> error + 'a" where
  "py_index xs i =
     (if 0 \<le> i \<and> i < int (length xs) then Inr (xs ! nat i)
      else if i < 0 \<and> - int (length xs) \<le> i then Inr (xs ! nat (int (length xs) + i))
      else Inl IndexError)"

text \<open>
  \<open>xs[start:]\<close>: a negative \<open>start\<close> counts from the end and is clipped at the
  beginning of the list; a \<open>start\<close> beyond the end gives the empty list.
\<close>

definition py_slice_from :: "int \<Rightarrow> 'a list \<Rightarrow> 'a list" where
  "py_slice_from start xs =
     (if start < 0 then drop (nat (int (length xs) + start)) xs
      else drop (nat start) xs)"

text \<open>
  \<open>round(x, n)\<close> on an exact value: the nearest multiple of \<open>10 ^ (-n)\<close>, a tie going to
  the even multiple.
\<close>

definition py_round :: "rat \<Rightarrow> nat \<Rightarrow> rat" where
  "py_round x n =
     (let s = x * 10 ^ n;
          f = \<lfloor>s\<rfloor>;
          d = s - of_int f
      in of_int (if d < 1 / 2 then f
                 else if 1 / 2 < d then f + 1
                 else if even f then f else f + 1) / 10 ^ n)"

section \<open>The upstream client (\<open>services/alphavantage.py\<close>)\<close>

text \<open>
  \<open>AlphaVantageClient\<close>: the key pool and its cursor. \<open>sent\<close> is the trace of the
  requests issued so far, each by the \<open>apikey\<close> it carried (the other query
  parameters are those of the call and do not change between attempts).
\<close>

record client =
  api_keys :: "string list"
  next_key_idx :: int
  sent :: "string list"

text \<open>
  The upstream: what the request number \<open>n\<close> (counted from 0), sent with a given
  \<open>apikey\<close>, yields after \<open>http.get\<close>, \<open>raise_for_status\<close> and \<open>r.json()\<close>: an
  exception or the decoded payload.
\<close>

type_synonym upstream = "nat \<Rightarrow> string \<Rightarrow> error + json"

text \<open>\<open>_take_next_key\<close>.\<close>

definition take_next_key :: "client \<Rightarrow> (error + string) \<times> client" where
  "take_next_key c =
     (if api_keys c = [] then (Inl NoCredentials, c)
      else (case py_index (api_keys c) (next_key_idx c) of
              Inl e \<Rightarrow> (Inl e, c)
            | Inr key \<Rightarrow>
                (Inr key,
                 c\<lparr>next_key_idx := (next_key_idx c + 1) mod int (length (api_keys c))\<rparr>)))"

text \<open>\<open>n\<close> consecutive calls of \<open>_take_next_key\<close>, with the keys they return.\<close>

fun take_keys :: "nat \<Rightarrow> client \<Rightarrow> (error + string list) \<times> client" where
  "take_keys 0 c = (Inr [], c)"
| "take_keys (Suc n) c =
     (case take_next_key c of
        (Inl e, c1) \<Rightarrow> (Inl e, c1)
      | (Inr key, c1) \<Rightarrow>
          (case take_keys n c1 of
             (Inl e, c2) \<Rightarrow> (Inl e, c2)
           | (Inr keys, c2) \<Rightarrow> (Inr (key # keys), c2)))"

text \<open>\<open>_is_throttle_payload\<close>.\<close>

definition is_throttle_payload :: "json \<Rightarrow> bool" where
  "is_throttle_payload payload =
     (case payload of
        JObj d \<Rightarrow> dict_has d ''Note'' \<and> (case dict_get d ''Note'' of JStr s \<Rightarrow> True | _ \<Rightarrow> False)
      | _ \<Rightarrow> False)"

text \<open>One request: \<open>http.get\<close> with the key, \<open>raise_for_status\<close>, \<open>r.json()\<close>.\<close>

definition http_get :: "upstream \<Rightarrow> string \<Rightarrow> client \<Rightarrow> (error + json) \<times> client" where
  "http_get up key c = (up (length (sent c)) key, c\<lparr>sent := sent c @ [key]\<rparr>)"

text \<open>
  The loop \<open>for _ in range(attempts)\<close> of \<open>_get\<close>: \<open>Inr (Some data)\<close> is its
  \<open>return data\<close>, \<open>Inr None\<close> is the loop running out.
\<close>

fun get_attempts :: "upstream \<Rightarrow> nat \<Rightarrow> client \<Rightarrow> (error + json option) \<times> client" where
  "get_attempts up 0 c = (Inr None, c)"
| "get_attempts up (Suc n) c =
     (case take_next_key c of
        (Inl e, c1) \<Rightarrow> (Inl e, c1)
      | (Inr key, c1) \<Rightarrow>
          (case http_get up key c1 of
             (Inl e, c2) \<Rightarrow> (Inl e, c2)
           | (Inr data, c2) \<Rightarrow>
               if is_throttle_payload data then get_attempts up n c2
               else (Inr (Some data), c2)))"

text \<open>
  The body of \<open>_get\<close>, one execution. (\<open>_maybe_rate_limit\<close> only delays the caller; it
  issues no request and touches neither the pool nor the result.)
\<close>

definition get_body :: "upstream \<Rightarrow> client \<Rightarrow> (error + json) \<times> client" where
  "get_body up c =
     (case get_attempts up (max 1 (length (api_keys c))) c of
        (Inl e, c1) \<Rightarrow> (Inl e, c1)
      | (Inr (Some data), c1) \<Rightarrow> (Inr data, c1)
      | (Inr None, c1) \<Rightarrow>
          (case take_next_key c1 of
             (Inl e, c2) \<Rightarrow> (Inl e, c2)
           | (Inr fallback_key, c2) \<Rightarrow> http_get up fallback_key c2))"

text \<open>
  The decorator \<open>@retry(wait=wait_exponential(...), stop=stop_after_attempt(3))\<close> of
  tenacity: the body runs again after every exception (the default condition retries
  on any \<open>Exception\<close>), up to the last allowed attempt, whose exception is wrapped in a
  \<open>RetryError\<close> (\<open>reraise\<close> is not set). \<open>retrying rest attempt\<close> runs attempt number
  \<open>attempt\<close> with \<open>rest\<close> attempts allowed after it. The waits between attempts are
  not modelled.
\<close>

fun retrying ::
  "nat \<Rightarrow> nat \<Rightarrow> (client \<Rightarrow> (error + 'a) \<times> client) \<Rightarrow> client \<Rightarrow> (error + 'a) \<times> client" where
  "retrying 0 attempt body c =
     (case body c of
        (Inr v, c1) \<Rightarrow> (Inr v, c1)
      | (Inl e, c1) \<Rightarrow> (Inl (RetryError attempt e), c1))"
| "retrying (Suc rest) attempt body c =
     (case body c of
        (Inr v, c1) \<Rightarrow> (Inr v, c1)
      | (Inl e, c1) \<Rightarrow> retrying rest (Suc attempt) body c1)"

text \<open>\<open>_get\<close> as its callers see it: the body under the decorator.\<close>

definition get :: "upstream \<Rightarrow> client \<Rightarrow> (error + json) \<times> client" where
  "get up c = retrying 2 1 (get_body up) c"

text \<open>The key that the \<open>i\<close>-th draw after cursor position \<open>idx\<close> returns.\<close>

definition key_at :: "client \<Rightarrow> nat \<Rightarrow> string" where
  "key_at c i = api_keys c ! ((nat (next_key_idx c) + i) mod length (api_keys c))"

text \<open>The cursor invariant of the credential pool.\<close>

definition cursor_ok :: "client \<Rightarrow> bool" where
  "cursor_ok c = (0 \<le> next_key_idx c \<and> next_key_idx c < int (length (api_keys c)))"

text \<open>
  The client after \<open>n\<close> more draws from the pool, and after \<open>n\<close> more requests, each
  with the next key of the pool.
\<close>

definition advance :: "nat \<Rightarrow> client \<Rightarrow> client" where
  "advance n c = c\<lparr>next_key_idx := int ((nat (next_key_idx c) + n) mod length (api_keys c))\<rparr>"

definition after_requests :: "nat \<Rightarrow> client \<Rightarrow> client" where
  "after_requests n c = (advance n c)\<lparr>sent := sent c @ map (key_at c) [0..<n]\<rparr>"

section \<open>The guidance builder (\<open>services/analytics.py\<close>)\<close>

text \<open>Sequencing of steps that may raise: the first exception ends the computation.\<close>

definition bind_err :: "error + 'a \<Rightarrow> ('a \<Rightarrow> error + 'b) \<Rightarrow> error + 'b" where
  "bind_err m f = (case m of Inl e \<Rightarrow> Inl e | Inr x \<Rightarrow> f x)"

text \<open>A loop that applies \<open>f\<close> to every element in order and collects the results.\<close>

fun map_err :: "('a \<Rightarrow> error + 'b) \<Rightarrow> 'a list \<Rightarrow> error + 'b list" where
  "map_err f [] = Inr []"
| "map_err f (x # xs) =
     bind_err (f x) (\<lambda>y. bind_err (map_err f xs) (\<lambda>ys. Inr (y # ys)))"

text \<open>
  The numeric value of a Python object in arithmetic and comparisons with floats:
  \<open>bool\<close> is a subclass of \<open>int\<close>; \<open>None\<close>, strings, lists and dicts raise
  \<open>TypeError\<close> there.
\<close>

fun as_number :: "json \<Rightarrow> error + rat" where
  "as_number (JNum r) = Inr r"
| "as_number (JBool b) = Inr (if b then 1 else 0)"
| "as_number _ = Inl TypeError"

text \<open>\<open>_bounded(x, lo, hi)\<close>.\<close>

definition bounded :: "json \<Rightarrow> rat \<Rightarrow> rat \<Rightarrow> error + rat" where
  "bounded x lo hi =
     (if x = JNull then Inr 0
      else bind_err (as_number x) (\<lambda>r. Inr (max lo (min hi r))))"

text \<open>\<open>_label_from_score\<close>.\<close>

definition label_from_score :: "rat \<Rightarrow> string" where
  "label_from_score score =
     (if score \<ge> 22 / 100 then ''buy''
      else if score \<le> - (22 / 100) then ''sell''
      else ''hold'')"

text \<open>The score of \<open>build_market_guidance\<close>, from the three bounded inputs.\<close>

definition signal_score_of :: "rat \<Rightarrow> rat \<Rightarrow> rat \<Rightarrow> rat" where
  "signal_score_of momentum sentiment volatility =
     (1 / 2) * momentum + (35 / 100) * sentiment - (1 / 4) * volatility"

text \<open>
  One turn of the loop of \<open>build_market_guidance\<close> over
  \<open>stock_rows + fx_rows + crypto_rows\<close>: the dictionary appended to \<open>merged\<close>.
\<close>

definition annotate :: "dict \<Rightarrow> error + dict" where
  "annotate row =
     bind_err (bounded (dict_get row ''momentum_1d'') (- 1) 1) (\<lambda>momentum.
     bind_err (bounded (dict_get row ''volatility_proxy'') 0 1) (\<lambda>volatility.
     bind_err (bounded (dict_get row ''sentiment'') (- 1) 1) (\<lambda>sentiment.
       let score = signal_score_of momentum sentiment volatility
       in Inr (dict_set ''risk_score'' (JNum (py_round volatility 4))
                (dict_set ''signal'' (JStr (label_from_score score))
                  (dict_set ''signal_score'' (JNum (py_round score 4)) row))))))"

text \<open>
  The inputs of the score as the specification describes them: a number is clamped to
  its domain, an absent value counts as 0. A row can be scored when its three inputs
  are numbers, \<open>None\<close> or absent, and \<open>momentum_1d\<close> is not present as \<open>None\<close>.
\<close>

definition clamped :: "json \<Rightarrow> rat \<Rightarrow> rat \<Rightarrow> rat" where
  "clamped x lo hi =
     (case x of
        JNum r \<Rightarrow> max lo (min hi r)
      | JBool b \<Rightarrow> max lo (min hi (if b then 1 else 0))
      | _ \<Rightarrow> 0)"

definition number_or_none :: "json \<Rightarrow> bool" where
  "number_or_none x = (case x of JNull \<Rightarrow> True | JNum r \<Rightarrow> True | JBool b \<Rightarrow> True | _ \<Rightarrow> False)"

definition scorable :: "dict \<Rightarrow> bool" where
  "scorable row =
     (number_or_none (dict_get row ''momentum_1d'')
      \<and> number_or_none (dict_get row ''volatility_proxy'')
      \<and> number_or_none (dict_get row ''sentiment'')
      \<and> map_of row ''momentum_1d'' \<noteq> Some JNull)"

text \<open>The annotated copy of a row, written with \<open>clamped\<close>.\<close>

definition scored :: "dict \<Rightarrow> dict" where
  "scored row =
     (let momentum = clamped (dict_get row ''momentum_1d'') (- 1) 1;
          volatility = clamped (dict_get row ''volatility_proxy'') 0 1;
          sentiment = clamped (dict_get row ''sentiment'') (- 1) 1;
          score = signal_score_of momentum sentiment volatility
      in dict_set ''risk_score'' (JNum (py_round volatility 4))
           (dict_set ''signal'' (JStr (label_from_score score))
              (dict_set ''signal_score'' (JNum (py_round score 4)) row)))"

text \<open>
  \<open>sorted(xs, key=key, reverse=reverse)\<close>: the keys are computed first, one per
  element and in order; the sort is stable, also when reversed.
\<close>

definition sorted_by :: "('a \<Rightarrow> error + 'k::linorder) \<Rightarrow> bool \<Rightarrow> 'a list \<Rightarrow> error + 'a list" where
  "sorted_by key reverse xs =
     bind_err (map_err key xs) (\<lambda>ks.
       Inr (map snd (if reverse then rev (sort_key fst (rev (zip ks xs)))
                     else sort_key fst (zip ks xs))))"

text \<open>\<open>r.get(k, 0.0)\<close> where the code goes on to compute with the value.\<close>

definition num_field :: "dict \<Rightarrow> string \<Rightarrow> error + rat" where
  "num_field r k = as_number (dict_get_default r k (JNum 0))"

text \<open>The sort keys of the five rankings, in the order of the source.\<close>

definition safest_key :: "dict \<Rightarrow> error + rat \<times> rat" where
  "safest_key r =
     bind_err (num_field r ''risk_score'') (\<lambda>risk.
     bind_err (num_field r ''signal_score'') (\<lambda>s. Inr (risk, - s)))"

definition riskiest_key :: "dict \<Rightarrow> error + rat \<times> rat" where
  "riskiest_key r =
     bind_err (num_field r ''risk_score'') (\<lambda>risk.
     bind_err (num_field r ''momentum_1d'') (\<lambda>m. Inr (risk, - \<bar>m\<bar>)))"

definition score_key :: "dict \<Rightarrow> error + rat" where
  "score_key r = num_field r ''signal_score''"

definition abs_score_key :: "dict \<Rightarrow> error + rat" where
  "abs_score_key r = bind_err (num_field r ''signal_score'') (\<lambda>s. Inr \<bar>s\<bar>)"

definition with_signal :: "string \<Rightarrow> dict list \<Rightarrow> dict list" where
  "with_signal label rs = filter (\<lambda>r. dict_get r ''signal'' = JStr label) rs"

text \<open>The two labels derived from the news average.\<close>

definition public_mood_of :: "json \<Rightarrow> string" where
  "public_mood_of news_avg =
     (case as_number news_avg of
        Inr a \<Rightarrow> if a > 15 / 100 then ''bullish''
                 else if a < - (15 / 100) then ''bearish'' else ''neutral''
      | Inl e \<Rightarrow> ''neutral'')"

definition expected_direction_of :: "json \<Rightarrow> string" where
  "expected_direction_of news_avg =
     (case as_number news_avg of
        Inr a \<Rightarrow> if a > 2 / 10 then ''upside bias''
                 else if a < - (2 / 10) then ''downside bias'' else ''range-bound''
      | Inl e \<Rightarrow> ''range-bound'')"

definition disclaimer :: string where
  "disclaimer = ''Signal rankings are heuristic and educational, not financial advice.''"

definition rows_json :: "dict list \<Rightarrow> json" where
  "rows_json rs = JArr (map JObj rs)"

text \<open>\<open>build_market_guidance\<close>.\<close>

definition build_market_guidance ::
  "dict list \<Rightarrow> dict list \<Rightarrow> dict list \<Rightarrow> dict \<Rightarrow> error + dict" where
  "build_market_guidance stock_rows fx_rows crypto_rows news_summary =
     (let news_avg = dict_get news_summary ''overall_average_sentiment'' in
      bind_err (map_err annotate (stock_rows @ fx_rows @ crypto_rows)) (\<lambda>merged.
      bind_err (sorted_by safest_key False merged) (\<lambda>safest.
      bind_err (sorted_by riskiest_key True merged) (\<lambda>riskiest.
      bind_err (sorted_by score_key True merged) (\<lambda>by_score_desc.
      bind_err (sorted_by score_key False merged) (\<lambda>by_score.
      bind_err (sorted_by abs_score_key False merged) (\<lambda>by_abs_score.
        Inr [(''public_mood'', JStr (public_mood_of news_avg)),
             (''expected_market_direction'', JStr (expected_direction_of news_avg)),
             (''signals'', rows_json merged),
             (''safest_bets'', rows_json (take 10 safest)),
             (''riskiest_bets'', rows_json (take 10 riskiest)),
             (''buy_candidates'', rows_json (take 10 (with_signal ''buy'' by_score_desc))),
             (''sell_candidates'', rows_json (take 10 (with_signal ''sell'' by_score))),
             (''hold_candidates'', rows_json (take 10 (with_signal ''hold'' by_abs_score))),
             (''disclaimer'', JStr disclaimer)])))))))"

section \<open>The refresh orchestrator (\<open>services/market_overview.py\<close>)\<close>

text \<open>\<open>_raise_if_av_error\<close>.\<close>

definition raise_if_av_error :: "json \<Rightarrow> error + unit" where
  "raise_if_av_error data =
     (case data of
        JObj d \<Rightarrow>
          if dict_has d ''Note'' \<or> dict_has d ''Information'' \<or> dict_has d ''Error Message''
          then Inl (AvError data) else Inr ()
      | _ \<Rightarrow> Inr ())"

subsection \<open>The state of the service\<close>

datatype refresh_state = Idle | Running | Completed | Failed

text \<open>
  \<open>self._refresh_status\<close>. The field \<open>error\<close> holds the exception whose \<open>str()\<close> the
  source stores.
\<close>

record status =
  state :: refresh_state
  reason :: "string option"
  started_at :: "string option"
  finished_at :: "string option"
  total_steps :: nat
  completed_steps :: nat
  progress_percent :: rat
  current_step :: "string option"
  message :: "string option"
  error :: "error option"
  latest_generated_at :: json

text \<open>
  A refresh task created by \<open>asyncio.create_task(self._run_refresh_task(reason))\<close>:
  not yet run (\<open>Queued\<close>), suspended inside \<open>refresh_once\<close> after \<open>n\<close> progress steps
  (\<open>Started n\<close>), or finished, by return, exception or cancellation (\<open>Finished\<close>,
  where \<open>done()\<close> holds).
\<close>

datatype task_phase = Queued | Started nat | Finished

record task =
  phase :: task_phase
  task_reason :: string

text \<open>
  \<open>MarketOverviewService\<close>. \<open>tasks\<close> are the refresh tasks created so far, in the
  order of their creation; \<open>refresh_task\<close> is \<open>self._refresh_task\<close>, a task by its
  position in \<open>tasks\<close>. \<open>stopping\<close> is the task that a call of \<open>stop()\<close> has
  cancelled and waits for, if there is such a call.
\<close>

record service =
  stocks :: "string list"
  cryptos :: "string list"
  fx_pairs :: "(string \<times> string) list"
  tz :: string
  snapshot :: json
  refresh_status :: status
  refresh_task :: "nat option"
  tasks :: "task list"
  stopping :: "nat option"

text \<open>
  The store file at startup: missing, present but \<open>read_text\<close> or \<open>json.loads\<close> raises,
  or a JSON document.
\<close>

datatype file_state = Absent | Unparsable | Content json

text \<open>\<open>_load_from_disk\<close>, from the current value of \<open>self._snapshot\<close>.\<close>

definition load_from_disk :: "file_state \<Rightarrow> json \<Rightarrow> json" where
  "load_from_disk file current =
     (case file of Absent \<Rightarrow> current | Unparsable \<Rightarrow> JObj [] | Content doc \<Rightarrow> doc)"

text \<open>
  \<open>__init__\<close>, from the parsed watchlists and the time zone name. \<open>.get\<close> on a
  document that is not a dictionary raises \<open>AttributeError\<close>.
\<close>

definition initial_status :: "json \<Rightarrow> status" where
  "initial_status generated =
     \<lparr>state = Idle, reason = None, started_at = None, finished_at = None,
      total_steps = 0, completed_steps = 0, progress_percent = 0,
      current_step = None, message = None, error = None,
      latest_generated_at = generated\<rparr>"

definition new_service ::
  "string list \<Rightarrow> string list \<Rightarrow> (string \<times> string) list \<Rightarrow> string \<Rightarrow> file_state
     \<Rightarrow> error + service" where
  "new_service watch_stocks watch_cryptos watch_fx zone file =
     (case load_from_disk file (JObj []) of
        JObj d \<Rightarrow>
          Inr \<lparr>stocks = watch_stocks, cryptos = watch_cryptos, fx_pairs = watch_fx, tz = zone,
               snapshot = JObj d,
               refresh_status =
                 initial_status
                   (case dict_get d ''latest'' of
                      JObj latest \<Rightarrow> dict_get latest ''generated_at''
                    | _ \<Rightarrow> JNull),
               refresh_task = None, tasks = [], stopping = None\<rparr>
      | _ \<Rightarrow> Inl AttributeError)"

text \<open>\<open>_total_steps\<close>.\<close>

definition total_steps_of :: "service \<Rightarrow> nat" where
  "total_steps_of s = length (stocks s) + length (fx_pairs s) + length (cryptos s) + 1"

text \<open>\<open>self._snapshot.get(key, default)\<close>.\<close>

definition store_get :: "service \<Rightarrow> string \<Rightarrow> json \<Rightarrow> error + json" where
  "store_get s k dflt =
     (case snapshot s of JObj d \<Rightarrow> Inr (dict_get_default d k dflt) | _ \<Rightarrow> Inl AttributeError)"

text \<open>\<open>get_latest\<close>.\<close>

definition get_latest :: "service \<Rightarrow> error + json" where
  "get_latest s = store_get s ''latest'' (JObj [])"

text \<open>
  \<open>get_history\<close>: the slice \<open>history[-limit:]\<close> of a list or of a string; any other
  value cannot be sliced.
\<close>

definition get_history :: "service \<Rightarrow> int \<Rightarrow> error + json" where
  "get_history s limit =
     bind_err (store_get s ''history'' (JArr [])) (\<lambda>history.
       case history of
         JArr h \<Rightarrow> Inr (JArr (py_slice_from (- limit) h))
       | JStr t \<Rightarrow> Inr (JStr (py_slice_from (- limit) t))
       | _ \<Rightarrow> Inl TypeError)"

subsection \<open>Single-flight start\<close>

text \<open>\<open>task.done()\<close> and the test \<open>running\<close> of \<open>start_refresh\<close> and \<open>get_refresh_status\<close>.\<close>

definition task_done :: "service \<Rightarrow> nat \<Rightarrow> bool" where
  "task_done s t = (t < length (tasks s) \<and> phase (tasks s ! t) = Finished)"

definition running :: "service \<Rightarrow> bool" where
  "running s = (case refresh_task s of None \<Rightarrow> False | Some t \<Rightarrow> \<not> task_done s t)"

text \<open>
  \<open>get_refresh_status\<close>: the status fields and the derived \<open>is_running\<close>. The status
  that \<open>_set_refresh_status\<close> returns has no \<open>is_running\<close> key.
\<close>

record status_view =
  status_fields :: status
  is_running :: "bool option"

definition get_refresh_status :: "service \<Rightarrow> status_view" where
  "get_refresh_status s = \<lparr>status_fields = refresh_status s, is_running = Some (running s)\<rparr>"

record start_result =
  accepted :: bool
  status_of :: status_view

text \<open>
  \<open>start_refresh\<close>; \<open>now\<close> is the value of \<open>_iso_utc_now()\<close>. Its \<open>await\<close>s are
  acquisitions of locks that no suspended coroutine holds and calls of coroutines
  without a suspension point, so the whole call is one step of the event loop.
\<close>

definition start_refresh :: "string \<Rightarrow> string \<Rightarrow> service \<Rightarrow> start_result \<times> service" where
  "start_refresh why now s =
     (if running s then (\<lparr>accepted = False, status_of = get_refresh_status s\<rparr>, s)
      else
        let st = (refresh_status s)
              \<lparr>state := Running, reason := Some why, started_at := Some now,
               finished_at := None, total_steps := total_steps_of s, completed_steps := 0,
               progress_percent := 0, current_step := Some ''Queued'',
               message := Some ''Refresh queued.'', error := None,
               latest_generated_at := latest_generated_at (refresh_status s)\<rparr>
        in (\<lparr>accepted = True, status_of = \<lparr>status_fields = st, is_running = None\<rparr>\<rparr>,
            s\<lparr>refresh_status := st,
              tasks := tasks s @ [\<lparr>phase = Queued, task_reason = why\<rparr>],
              refresh_task := Some (length (tasks s))\<rparr>))"

subsection \<open>The refresh body\<close>

text \<open>
  What one symbol's \<open>try\<close> block in \<open>_fetch_stock_rows\<close>, \<open>_fetch_fx_rows\<close> and
  \<open>_fetch_crypto_rows\<close> takes from the upstream and the summarising functions: the
  four values that go into the row.
\<close>

record summary =
  price :: json
  momentum_1d :: json
  volatility_proxy :: json
  last_refreshed :: json

text \<open>
  Everything a run of \<open>refresh_once\<close> takes from outside the service: the clock
  (\<open>_iso_utc_now()\<close> at the start, at the assembly of the snapshot and at the end),
  for the symbol at each position of a watchlist the text of the exception its \<open>try\<close>
  block raised or the values it computed, the result of \<open>client.news_sentiment\<close>, the
  function \<open>aggregate_news_sentiment\<close>, and the exception of \<open>_persist\<close> if it raises.
\<close>

record refresh_env =
  now_start :: string
  stock_outcome :: "nat \<Rightarrow> string + summary"
  fx_outcome :: "nat \<Rightarrow> string + summary"
  crypto_outcome :: "nat \<Rightarrow> string + summary"
  news_raw :: "error + json"
  news_aggregate :: "json \<Rightarrow> error + dict"
  now_generated :: string
  persist_error :: "error option"
  now_finished :: string

definition make_row :: "string \<Rightarrow> bool \<Rightarrow> string \<Rightarrow> summary \<Rightarrow> dict" where
  "make_row asset_class with_volatility symbol sm =
     [(''asset_class'', JStr asset_class),
      (''symbol'', JStr symbol),
      (''price'', price sm),
      (''momentum_1d'', momentum_1d sm),
      (''volatility_proxy'', if with_volatility then volatility_proxy sm else JNull),
      (''last_refreshed'', last_refreshed sm)]"

definition error_record :: "string \<Rightarrow> string \<Rightarrow> string \<Rightarrow> dict" where
  "error_record asset_class symbol msg =
     [(''asset_class'', JStr asset_class), (''symbol'', JStr symbol), (''error'', JStr msg)]"

text \<open>
  The rows and the error records that a \<open>_fetch_..._rows\<close> loop returns: every
  exception of a symbol is caught there, so the loop itself does not raise.
\<close>

definition fetch_rows ::
  "string \<Rightarrow> bool \<Rightarrow> string list \<Rightarrow> (nat \<Rightarrow> string + summary) \<Rightarrow> dict list \<times> dict list" where
  "fetch_rows asset_class with_volatility symbols outcome =
     (let results = map (\<lambda>(i, symbol). (symbol, outcome i)) (enumerate 0 symbols)
      in (List.map_filter
            (\<lambda>(symbol, r). case r of
                 Inr sm \<Rightarrow> Some (make_row asset_class with_volatility symbol sm)
               | Inl msg \<Rightarrow> None) results,
          List.map_filter
            (\<lambda>(symbol, r). case r of
                 Inl msg \<Rightarrow> Some (error_record asset_class symbol msg)
               | Inr sm \<Rightarrow> None) results))"

definition pair_names :: "(string \<times> string) list \<Rightarrow> string list" where
  "pair_names pairs = map (\<lambda>(from_symbol, to_symbol). from_symbol @ ''/'' @ to_symbol) pairs"

text \<open>The labels that the three loops pass to \<open>mark_step\<close>, in order.\<close>

definition step_labels :: "service \<Rightarrow> string list" where
  "step_labels s =
     map (\<lambda>symbol. ''Fetched stock '' @ symbol) (stocks s)
     @ map (\<lambda>pair. ''Fetched FX '' @ pair) (pair_names (fx_pairs s))
     @ map (\<lambda>symbol. ''Fetched crypto '' @ symbol) (cryptos s)"

text \<open>The status update at the start of \<open>refresh_once\<close>.\<close>

definition refresh_begin :: "string \<Rightarrow> bool \<Rightarrow> refresh_env \<Rightarrow> service \<Rightarrow> service" where
  "refresh_begin why track_progress env s =
     (if track_progress then
        s\<lparr>refresh_status := (refresh_status s)
            \<lparr>state := Running, reason := Some why, started_at := Some (now_start env),
             finished_at := None, total_steps := total_steps_of s, completed_steps := 0,
             progress_percent := 0, current_step := Some ''Starting refresh'',
             message := Some ''Starting refresh'', error := None\<rparr>\<rparr>
      else s)"

text \<open>
  \<open>mark_step\<close> under \<open>track_progress\<close>; \<open>completed\<close> is the counter after its
  increment.
\<close>

definition mark_step :: "string \<Rightarrow> nat \<Rightarrow> service \<Rightarrow> service" where
  "mark_step step_label completed s =
     s\<lparr>refresh_status := (refresh_status s)
         \<lparr>total_steps := total_steps_of s, completed_steps := completed,
          progress_percent :=
            (if total_steps_of s \<noteq> 0
             then py_round (of_nat completed / of_nat (total_steps_of s) * 100) 2 else 0),
          current_step := Some step_label, message := Some step_label\<rparr>\<rparr>"

text \<open>The progress steps of the three fetch loops, one after the other.\<close>

definition refresh_marks :: "bool \<Rightarrow> service \<Rightarrow> service" where
  "refresh_marks track_progress s =
     (if track_progress
      then fold (\<lambda>(i, step_label). mark_step step_label (Suc i)) (enumerate 0 (step_labels s)) s
      else s)"

text \<open>Python's truth value of an object, for \<open>x or {}\<close>.\<close>

fun truthy :: "json \<Rightarrow> bool" where
  "truthy JNull = False"
| "truthy (JBool b) = b"
| "truthy (JNum r) = (r \<noteq> 0)"
| "truthy (JStr t) = (t \<noteq> [])"
| "truthy (JArr xs) = (xs \<noteq> [])"
| "truthy (JObj d) = (d \<noteq> [])"

definition sentiment_map_of :: "dict \<Rightarrow> json" where
  "sentiment_map_of news_summary =
     (let m = dict_get_default news_summary ''ticker_average_sentiment'' (JObj [])
      in if truthy m then m else JObj [])"

text \<open>\<open>row["sentiment"] = sentiment_map.get(row["symbol"])\<close>.\<close>

definition set_sentiment :: "json \<Rightarrow> dict \<Rightarrow> error + dict" where
  "set_sentiment sentiment_map row =
     (case sentiment_map of
        JObj m \<Rightarrow>
          (case map_of row ''symbol'' of
             None \<Rightarrow> Inl KeyError
           | Some (JStr symbol) \<Rightarrow> Inr (dict_set ''sentiment'' (dict_get m symbol) row)
           | Some (JArr xs) \<Rightarrow> Inl TypeError
           | Some (JObj d) \<Rightarrow> Inl TypeError
           | Some other \<Rightarrow> Inr (dict_set ''sentiment'' JNull row))
      | _ \<Rightarrow> Inl AttributeError)"

definition coverage_note :: string where
  "coverage_note =
     ''Coverage is based on configured watchlists and not every global tradable instrument.''"

text \<open>
  From the news summary to the snapshot dictionary: the sentiment of every row, the
  guidance, and the assembly of the snapshot.
\<close>

definition build_snapshot :: "string \<Rightarrow> refresh_env \<Rightarrow> service \<Rightarrow> dict \<Rightarrow> error + dict" where
  "build_snapshot why env s news_summary =
     (let (stock_rows0, stock_errors) = fetch_rows ''stock'' True (stocks s) (stock_outcome env);
          (fx_rows0, fx_errors) = fetch_rows ''fx'' False (pair_names (fx_pairs s)) (fx_outcome env);
          (crypto_rows0, crypto_errors) =
             fetch_rows ''crypto'' False (cryptos s) (crypto_outcome env);
          sentiment_map = sentiment_map_of news_summary
      in
      bind_err (map_err (set_sentiment sentiment_map) stock_rows0) (\<lambda>stock_rows.
      bind_err (map_err (set_sentiment sentiment_map) crypto_rows0) (\<lambda>crypto_rows.
      bind_err (map_err (set_sentiment sentiment_map) fx_rows0) (\<lambda>fx_rows.
      bind_err (build_market_guidance stock_rows fx_rows crypto_rows news_summary) (\<lambda>guidance.
        Inr [(''generated_at'', JStr (now_generated env)),
             (''reason'', JStr why),
             (''timezone'', JStr (tz s)),
             (''coverage'',
                JObj [(''stocks'', JNum (of_nat (length stock_rows))),
                      (''fx_pairs'', JNum (of_nat (length fx_rows))),
                      (''cryptos'', JNum (of_nat (length crypto_rows)))]),
             (''stocks'', rows_json stock_rows),
             (''fx'', rows_json fx_rows),
             (''crypto'', rows_json crypto_rows),
             (''news'', JObj news_summary),
             (''guidance'', JObj guidance),
             (''errors'', rows_json (stock_errors @ fx_errors @ crypto_errors)),
             (''notes'', JArr [JStr coverage_note, dict_get guidance ''disclaimer''])])))))"

text \<open>
  The update of the store under \<open>self._lock\<close>, before \<open>_persist\<close>:
  \<open>history.append(snapshot)\<close> needs a list.
\<close>

definition store_snapshot :: "dict \<Rightarrow> service \<Rightarrow> error + service" where
  "store_snapshot snap s =
     bind_err (store_get s ''history'' (JArr [])) (\<lambda>history.
       case history of
         JArr h \<Rightarrow>
           Inr (s\<lparr>snapshot :=
                    JObj [(''latest'', JObj snap),
                          (''history'', JArr (py_slice_from (- 200) (h @ [JObj snap])))]\<rparr>)
       | _ \<Rightarrow> Inl AttributeError)"

text \<open>
  The \<open>try\<close> block of \<open>refresh_once\<close> from the news fetch on, with the state at the
  point where it returns or raises.
\<close>

definition refresh_try ::
  "string \<Rightarrow> bool \<Rightarrow> refresh_env \<Rightarrow> service \<Rightarrow> (error + dict) \<times> service" where
  "refresh_try why track_progress env s =
     (case bind_err (news_raw env) (\<lambda>raw.
             bind_err (raise_if_av_error raw) (\<lambda>u. news_aggregate env raw)) of
        Inl e \<Rightarrow> (Inl e, s)
      | Inr news_summary \<Rightarrow>
          let s1 = (if track_progress
                    then mark_step ''Fetched market news sentiment''
                           (Suc (length (step_labels s))) s
                    else s)
          in (case build_snapshot why env s1 news_summary of
                Inl e \<Rightarrow> (Inl e, s1)
              | Inr snap \<Rightarrow>
                  (case store_snapshot snap s1 of
                     Inl e \<Rightarrow> (Inl e, s1)
                   | Inr s2 \<Rightarrow>
                       (case persist_error env of
                          Some e \<Rightarrow> (Inl e, s2)
                        | None \<Rightarrow>
                            (Inr snap,
                             if track_progress then
                               s2\<lparr>refresh_status := (refresh_status s2)
                                    \<lparr>state := Completed,
                                     finished_at := Some (now_finished env),
                                     total_steps := total_steps_of s2,
                                     completed_steps := total_steps_of s2,
                                     progress_percent := 100,
                                     current_step := Some ''Completed'',
                                     message := Some ''Refresh completed successfully.'',
                                     error := None,
                                     latest_generated_at := JStr (now_generated env)\<rparr>\<rparr>
                             else s2)))))"

text \<open>The \<open>try\<close> block with its \<open>except Exception\<close> handler, which raises again.\<close>

definition refresh_finish ::
  "string \<Rightarrow> bool \<Rightarrow> refresh_env \<Rightarrow> service \<Rightarrow> (error + dict) \<times> service" where
  "refresh_finish why track_progress env s =
     (case refresh_try why track_progress env s of
        (Inr snap, s1) \<Rightarrow> (Inr snap, s1)
      | (Inl e, s1) \<Rightarrow>
          (Inl e,
           if track_progress then
             s1\<lparr>refresh_status := (refresh_status s1)
                  \<lparr>state := Failed, finished_at := Some (now_finished env),
                   current_step := Some ''Failed'', message := Some ''Refresh failed.'',
                   error := Some e\<rparr>\<rparr>
           else s1))"

text \<open>\<open>refresh_once\<close>, run from its first to its last statement.\<close>

definition refresh_once ::
  "string \<Rightarrow> bool \<Rightarrow> refresh_env \<Rightarrow> service \<Rightarrow> (error + dict) \<times> service" where
  "refresh_once why track_progress env s =
     refresh_finish why track_progress env
       (refresh_marks track_progress (refresh_begin why track_progress env s))"

text \<open>
  How a run of the refresh body can leave the service: \<open>status_only s s'\<close> when at
  most the status has changed, \<open>stored_in s snap s'\<close> when the snapshot \<open>snap\<close> has also
  been put into the store.
\<close>

definition status_only :: "service \<Rightarrow> service \<Rightarrow> bool" where
  "status_only s s' = (s' = s\<lparr>refresh_status := refresh_status s'\<rparr>)"

definition stored :: "dict \<Rightarrow> json list \<Rightarrow> json" where
  "stored snap h =
     JObj [(''latest'', JObj snap),
           (''history'', JArr (py_slice_from (- 200) (h @ [JObj snap])))]"

definition stored_in :: "service \<Rightarrow> dict \<Rightarrow> service \<Rightarrow> bool" where
  "stored_in s snap s' =
     (\<exists>h. store_get s ''history'' (JArr []) = Inr (JArr h)
        \<and> s' = s\<lparr>snapshot := stored snap h, refresh_status := refresh_status s'\<rparr>)"

text \<open>Several runs of \<open>refresh_once\<close> one after the other, with their results.\<close>

fun refresh_all ::
  "(string \<times> bool \<times> refresh_env) list \<Rightarrow> service \<Rightarrow> (error + dict) list \<times> service" where
  "refresh_all [] s = ([], s)"
| "refresh_all ((why, track_progress, env) # runs) s =
     (case refresh_once why track_progress env s of
        (r, s1) \<Rightarrow> (case refresh_all runs s1 of (rs, s2) \<Rightarrow> (r # rs, s2)))"

subsection \<open>The service under the event loop\<close>

text \<open>
  A coroutine runs without interruption from one suspension point to the next. The
  refresh task is suspended before its first step, and inside \<open>refresh_once\<close> at the
  upstream calls and sleeps of the fetch loops and at the news fetch; from the return
  of the news fetch to the end of \<open>_run_refresh_task\<close> it is not suspended again. Its
  steps are therefore: the start, one step per symbol, and the rest.
\<close>

definition in_flight :: "service \<Rightarrow> nat \<Rightarrow> bool" where
  "in_flight s t = (t < length (tasks s) \<and> phase (tasks s ! t) \<noteq> Finished)"

definition set_phase :: "nat \<Rightarrow> task_phase \<Rightarrow> service \<Rightarrow> service" where
  "set_phase t p s = s\<lparr>tasks := (tasks s)[t := (tasks s ! t)\<lparr>phase := p\<rparr>]\<rparr>"

text \<open>\<open>_run_refresh_task\<close> calls \<open>refresh_once\<close> with \<open>track_progress=True\<close>.\<close>

definition task_begin :: "nat \<Rightarrow> refresh_env \<Rightarrow> service \<Rightarrow> service" where
  "task_begin t env s =
     set_phase t (Started 0) (refresh_begin (task_reason (tasks s ! t)) True env s)"

definition task_mark :: "nat \<Rightarrow> nat \<Rightarrow> service \<Rightarrow> service" where
  "task_mark t k s = set_phase t (Started (Suc k)) (mark_step (step_labels s ! k) (Suc k) s)"

text \<open>
  The last step, whether \<open>refresh_once\<close> returns or raises: the \<open>finally\<close> clause of
  \<open>_run_refresh_task\<close> clears the handle and the task is done.
\<close>

definition task_finish :: "nat \<Rightarrow> refresh_env \<Rightarrow> service \<Rightarrow> service" where
  "task_finish t env s =
     (set_phase t Finished
        (snd (refresh_finish (task_reason (tasks s ! t)) True env s)))\<lparr>refresh_task := None\<rparr>"

text \<open>
  Cancellation, requested by \<open>stop()\<close>. \<open>CancelledError\<close> is not an \<open>Exception\<close>, so
  no handler of the refresh catches it. A task cancelled before its first step never
  enters the \<open>try\<close> of \<open>_run_refresh_task\<close>; one cancelled inside \<open>refresh_once\<close> runs
  the \<open>finally\<close> clause.
\<close>

definition task_cancelled :: "nat \<Rightarrow> service \<Rightarrow> service" where
  "task_cancelled t s =
     (case phase (tasks s ! t) of
        Queued \<Rightarrow> set_phase t Finished s
      | Started k \<Rightarrow> (set_phase t Finished s)\<lparr>refresh_task := None\<rparr>
      | Finished \<Rightarrow> s)"

text \<open>
  \<open>stop()\<close> with a refresh task \<open>t\<close> in flight, in its two steps: up to \<open>await
  self._refresh_task\<close>, where it has cancelled \<open>t\<close>, and from there on, once \<open>t\<close> is done.
\<close>

definition stop_cancel :: "nat \<Rightarrow> service \<Rightarrow> service" where
  "stop_cancel t s = s\<lparr>stopping := Some t\<rparr>"

definition stop_resume :: "service \<Rightarrow> service" where
  "stop_resume s = s\<lparr>refresh_task := None, stopping := None\<rparr>"

text \<open>
  The states of the service: it is constructed from the store file; \<open>start_refresh\<close>
  is called, by a request or by the scheduler, at any time before shutdown; the
  refresh task takes its steps; \<open>stop()\<close> cancels the task in flight, waits for it and
  clears the handle. The application calls \<open>stop()\<close> when it shuts down, after the
  scheduler and the request handlers have ended: no \<open>start_refresh\<close> runs while
  \<open>stop()\<close> waits.
\<close>

inductive reachable :: "service \<Rightarrow> bool" where
  constructed:
    "new_service watch_stocks watch_cryptos watch_fx zone file = Inr s \<Longrightarrow> reachable s"
| started:
    "reachable s \<Longrightarrow> stopping s = None \<Longrightarrow> reachable (snd (start_refresh why now s))"
| begun:
    "reachable s \<Longrightarrow> t < length (tasks s) \<Longrightarrow> phase (tasks s ! t) = Queued
       \<Longrightarrow> reachable (task_begin t env s)"
| marked:
    "reachable s \<Longrightarrow> t < length (tasks s) \<Longrightarrow> phase (tasks s ! t) = Started k
       \<Longrightarrow> k < length (step_labels s) \<Longrightarrow> reachable (task_mark t k s)"
| finished:
    "reachable s \<Longrightarrow> t < length (tasks s) \<Longrightarrow> phase (tasks s ! t) = Started k
       \<Longrightarrow> k = length (step_labels s) \<Longrightarrow> reachable (task_finish t env s)"
| stop_called:
    "reachable s \<Longrightarrow> stopping s = None \<Longrightarrow> refresh_task s = Some t \<Longrightarrow> \<not> task_done s t
       \<Longrightarrow> reachable (stop_cancel t s)"
| cancelled:
    "reachable s \<Longrightarrow> stopping s = Some t \<Longrightarrow> in_flight s t
       \<Longrightarrow> reachable (task_cancelled t s)"
| stop_returned:
    "reachable s \<Longrightarrow> stopping s = Some t \<Longrightarrow> task_done s t \<Longrightarrow> reachable (stop_resume s)"

text \<open>The steps of one task from its first to its last, with nothing in between.\<close>

definition run_task :: "nat \<Rightarrow> refresh_env \<Rightarrow> service \<Rightarrow> service" where
  "run_task t env s =
     task_finish t env (fold (task_mark t) [0..<length (step_labels s)] (task_begin t env s))"

text \<open>
  A task whose refresh body is being executed, and the invariant of the single-flight
  handle: a task in flight is the one the handle refers to, the handle refers to a
  task that exists, and while \<open>stop()\<close> waits for a task no other task is in flight.
\<close>

definition executing :: "service \<Rightarrow> nat \<Rightarrow> bool" where
  "executing s t =
     (t < length (tasks s)
      \<and> (case phase (tasks s ! t) of Started k \<Rightarrow> True | _ \<Rightarrow> False))"

definition single_flight :: "service \<Rightarrow> bool" where
  "single_flight s =
     ((\<forall>t. in_flight s t \<longrightarrow> refresh_task s = Some t)
      \<and> (\<forall>t. refresh_task s = Some t \<longrightarrow> t < length (tasks s))
      \<and> (\<forall>t u. stopping s = Some t \<longrightarrow> in_flight s u \<longrightarrow> u = t))"

section \<open>Properties of the upstream client\<close>

lemma cursor_ok_nonempty: "cursor_ok c \<Longrightarrow> api_keys c \<noteq> []"
  by (auto simp: cursor_ok_def)

lemma take_next_key_ok:
  assumes "cursor_ok c"
  shows "take_next_key c =
    (Inr (key_at c 0),
     c\<lparr>next_key_idx := int ((nat (next_key_idx c) + 1) mod length (api_keys c))\<rparr>)"
proof -
  let ?k = "length (api_keys c)"
  from assms have ne: "api_keys c \<noteq> []"
    by (rule cursor_ok_nonempty)
  from assms have lt: "nat (next_key_idx c) < ?k" and nn: "0 \<le> next_key_idx c"
    by (auto simp: cursor_ok_def)
  from assms have idx: "py_index (api_keys c) (next_key_idx c) = Inr (api_keys c ! nat (next_key_idx c))"
    by (simp add: py_index_def cursor_ok_def)
  from lt have k0: "key_at c 0 = api_keys c ! nat (next_key_idx c)"
    by (simp add: key_at_def)
  have "(next_key_idx c + 1) mod int ?k = int ((nat (next_key_idx c) + 1) mod ?k)"
    using nn by (simp add: zmod_int add.commute)
  with ne idx k0 show ?thesis
    by (simp add: take_next_key_def)
qed

lemma take_next_key_empty: "api_keys c = [] \<Longrightarrow> take_next_key c = (Inl NoCredentials, c)"
  by (simp add: take_next_key_def)

lemma advance_simps [simp]:
  "api_keys (advance n c) = api_keys c"
  "sent (advance n c) = sent c"
  "next_key_idx (advance n c) = int ((nat (next_key_idx c) + n) mod length (api_keys c))"
  by (simp_all add: advance_def)

lemma cursor_ok_advance: "cursor_ok c \<Longrightarrow> cursor_ok (advance n c)"
proof -
  assume "cursor_ok c"
  then have "0 < length (api_keys c)"
    by (auto simp: cursor_ok_def)
  then show ?thesis
    by (simp add: cursor_ok_def)
qed

lemma advance_advance: "advance m (advance n c) = advance (n + m) c"
  by (simp add: advance_def mod_add_left_eq add.assoc)

lemma key_at_advance: "key_at (advance n c) i = key_at c (n + i)"
  by (simp add: key_at_def mod_add_left_eq add.assoc)

lemma advance_0: "cursor_ok c \<Longrightarrow> advance 0 c = c"
proof -
  assume "cursor_ok c"
  then have "nat (next_key_idx c) < length (api_keys c)" "0 \<le> next_key_idx c"
    by (auto simp: cursor_ok_def)
  then show ?thesis
    by (simp add: advance_def)
qed

lemma take_keys_run:
  "cursor_ok c \<Longrightarrow> take_keys n c = (Inr (map (key_at c) [0..<n]), advance n c)"
proof (induction n arbitrary: c)
  case 0
  then show ?case by (simp add: advance_0)
next
  case (Suc n)
  have step: "take_next_key c = (Inr (key_at c 0), advance (Suc 0) c)"
    using take_next_key_ok [OF Suc.prems] by (simp add: advance_def)
  have ok1: "cursor_ok (advance (Suc 0) c)"
    using Suc.prems by (rule cursor_ok_advance)
  have "map (key_at (advance (Suc 0) c)) [0..<n] = map (key_at c) [1..<Suc n]"
    by (simp add: key_at_advance map_Suc_upt [symmetric] del: upt_Suc)
  then have "key_at c 0 # map (key_at (advance (Suc 0) c)) [0..<n] = map (key_at c) [0..<Suc n]"
    by (simp add: upt_conv_Cons del: upt_Suc)
  with step Suc.IH [OF ok1] show ?case
    by (simp add: advance_advance del: upt_Suc)
qed

lemma keys_cycle: "cursor_ok c \<Longrightarrow>
  map (key_at c) [0..<length (api_keys c)] = rotate (nat (next_key_idx c)) (api_keys c)"
  by (rule nth_equalityI) (simp_all add: key_at_def nth_rotate)

lemma advance_full: "cursor_ok c \<Longrightarrow> advance (length (api_keys c)) c = c"
  using advance_0 [of c] by (simp add: advance_def)


lemma after_requests_simps [simp]:
  "api_keys (after_requests n c) = api_keys c"
  "sent (after_requests n c) = sent c @ map (key_at c) [0..<n]"
  "next_key_idx (after_requests n c) = int ((nat (next_key_idx c) + n) mod length (api_keys c))"
  by (simp_all add: after_requests_def)

lemma cursor_ok_sent [simp]: "cursor_ok (c\<lparr>sent := xs\<rparr>) = cursor_ok c"
  by (simp add: cursor_ok_def)

lemma key_at_sent [simp]: "key_at (c\<lparr>sent := xs\<rparr>) i = key_at c i"
  by (simp add: key_at_def)

lemma key_at_sent_fun [simp]: "key_at (c\<lparr>sent := xs\<rparr>) = key_at c"
  by (rule ext) simp

lemma advance_sent: "advance n (c\<lparr>sent := xs\<rparr>) = (advance n c)\<lparr>sent := xs\<rparr>"
  by (simp add: advance_def)

lemma one_request:
  assumes "cursor_ok c"
  shows "(case take_next_key c of
            (Inl e, c1) \<Rightarrow> (Inl e, c1)
          | (Inr key, c1) \<Rightarrow> http_get up key c1) =
         (up (length (sent c)) (key_at c 0), after_requests (Suc 0) c)"
proof -
  have "take_next_key c = (Inr (key_at c 0), advance (Suc 0) c)"
    using take_next_key_ok [OF assms] by (simp add: advance_def)
  then show ?thesis
    by (simp add: http_get_def after_requests_def)
qed

lemma after_requests_Suc:
  "after_requests n (after_requests (Suc 0) c) = after_requests (Suc n) c"
proof -
  have "map (key_at (advance (Suc 0) c)) [0..<n] = map (key_at c) (map Suc [0..<n])"
    by (simp add: key_at_advance)
  also have "\<dots> = map (key_at c) [Suc 0..<Suc n]"
    by (simp only: map_Suc_upt)
  finally have "key_at c 0 # map (key_at (advance (Suc 0) c)) [0..<n] = map (key_at c) (0 # [Suc 0..<Suc n])"
    by simp
  also have "0 # [Suc 0..<Suc n] = [0..<Suc n]"
    by (simp add: upt_conv_Cons del: upt_Suc)
  finally have keys: "key_at c 0 # map (key_at (advance (Suc 0) c)) [0..<n] = map (key_at c) [0..<Suc n]" .
  have "after_requests n (after_requests (Suc 0) c) =
      (advance (Suc n) c)\<lparr>sent := sent c @ (key_at c 0 # map (key_at (advance (Suc 0) c)) [0..<n])\<rparr>"
    by (simp add: after_requests_def advance_sent advance_advance)
  also have "\<dots> = after_requests (Suc n) c"
    unfolding keys by (simp add: after_requests_def)
  finally show ?thesis .
qed

lemma after_requests_add:
  "after_requests m (after_requests n c) = after_requests (n + m) c"
proof -
  have "map (key_at (advance n c)) [0..<m] = map (key_at c) (map (\<lambda>i. i + n) [0..<m])"
    by (simp add: key_at_advance add.commute)
  also have "\<dots> = map (key_at c) [n..<n + m]"
    by (simp only: map_add_upt add.commute)
  finally have "map (key_at c) [0..<n] @ map (key_at (advance n c)) [0..<m] = map (key_at c) [0..<n + m]"
    by (simp add: upt_add_eq_append [of 0 n m])
  then show ?thesis
    by (simp add: after_requests_def advance_sent advance_advance)
qed

lemma cursor_ok_after: "cursor_ok c \<Longrightarrow> cursor_ok (after_requests n c)"
  by (simp add: after_requests_def cursor_ok_advance)

lemma key_at_after: "key_at (after_requests n c) i = key_at c (n + i)"
  by (simp add: after_requests_def key_at_advance)

lemma get_attempts_Suc:
  assumes "cursor_ok c"
  shows "get_attempts up (Suc n) c =
    (case up (length (sent c)) (key_at c 0) of
       Inl e \<Rightarrow> (Inl e, after_requests (Suc 0) c)
     | Inr data \<Rightarrow>
         if is_throttle_payload data then get_attempts up n (after_requests (Suc 0) c)
         else (Inr (Some data), after_requests (Suc 0) c))"
proof -
  have "take_next_key c = (Inr (key_at c 0), advance (Suc 0) c)"
    using take_next_key_ok [OF assms] by (simp add: advance_def)
  then show ?thesis
    by (simp add: http_get_def after_requests_def split: sum.splits)
qed

lemma get_attempts_throttled:
  assumes "cursor_ok c"
    and "\<forall>i<n. \<exists>p. up (length (sent c) + i) (key_at c i) = Inr p \<and> is_throttle_payload p"
  shows "get_attempts up n c = (Inr None, after_requests n c)"
  using assms
proof (induction n arbitrary: c)
  case 0
  then show ?case
    by (simp add: after_requests_def advance_0)
next
  case (Suc n)
  from Suc.prems(2) obtain p where p: "up (length (sent c)) (key_at c 0) = Inr p" "is_throttle_payload p"
    by force
  have ok1: "cursor_ok (after_requests (Suc 0) c)"
    using Suc.prems(1) by (rule cursor_ok_after)
  have rest: "\<forall>i<n. \<exists>q. up (length (sent (after_requests (Suc 0) c)) + i) (key_at (after_requests (Suc 0) c) i) = Inr q
      \<and> is_throttle_payload q"
  proof (intro allI impI)
    fix i assume "i < n"
    then have "Suc i < Suc n" by simp
    with Suc.prems(2) obtain q where "up (length (sent c) + Suc i) (key_at c (Suc i)) = Inr q"
      "is_throttle_payload q" by blast
    then show "\<exists>q. up (length (sent (after_requests (Suc 0) c)) + i) (key_at (after_requests (Suc 0) c) i) = Inr q
      \<and> is_throttle_payload q"
      by (simp add: key_at_after)
  qed
  show ?case
    using p Suc.IH [OF ok1 rest]
    by (simp add: get_attempts_Suc [OF Suc.prems(1)] after_requests_Suc del: get_attempts.simps)
qed

lemma get_attempts_stops:
  assumes "cursor_ok c" and "j < n"
    and "\<forall>i<j. \<exists>p. up (length (sent c) + i) (key_at c i) = Inr p \<and> is_throttle_payload p"
    and "\<forall>p. up (length (sent c) + j) (key_at c j) = Inr p \<longrightarrow> \<not> is_throttle_payload p"
  shows "get_attempts up n c =
    (map_sum id Some (up (length (sent c) + j) (key_at c j)), after_requests (Suc j) c)"
  using assms
proof (induction j arbitrary: c n)
  case 0
  then obtain m where n: "n = Suc m"
    by (cases n) auto
  show ?case
    using "0.prems"(4) unfolding n
    by (simp add: get_attempts_Suc [OF "0.prems"(1)] del: get_attempts.simps split: sum.splits)
next
  case (Suc j)
  then obtain m where n: "n = Suc m" and jm: "j < m"
    by (cases n) auto
  from Suc.prems(3) obtain p where p: "up (length (sent c)) (key_at c 0) = Inr p" "is_throttle_payload p"
    by force
  have ok1: "cursor_ok (after_requests (Suc 0) c)"
    using Suc.prems(1) by (rule cursor_ok_after)
  have rest: "\<forall>i<j. \<exists>q. up (length (sent (after_requests (Suc 0) c)) + i) (key_at (after_requests (Suc 0) c) i) = Inr q
      \<and> is_throttle_payload q"
  proof (intro allI impI)
    fix i assume "i < j"
    then have "Suc i < Suc j" by simp
    with Suc.prems(3) obtain q where "up (length (sent c) + Suc i) (key_at c (Suc i)) = Inr q"
      "is_throttle_payload q" by blast
    then show "\<exists>q. up (length (sent (after_requests (Suc 0) c)) + i) (key_at (after_requests (Suc 0) c) i) = Inr q
      \<and> is_throttle_payload q"
      by (simp add: key_at_after)
  qed
  have last: "\<forall>q. up (length (sent (after_requests (Suc 0) c)) + j) (key_at (after_requests (Suc 0) c) j) = Inr q
      \<longrightarrow> \<not> is_throttle_payload q"
    using Suc.prems(4) by (simp add: key_at_after)
  show ?case
    using p Suc.IH [OF ok1 jm rest last] unfolding n
    by (simp add: get_attempts_Suc [OF Suc.prems(1)] after_requests_Suc key_at_after
        del: get_attempts.simps)
qed

lemma take_next_key_sent: "sent (snd (take_next_key c)) = sent c"
  by (simp add: take_next_key_def split: sum.splits)

lemma get_attempts_sent_bound:
  "length (sent (snd (get_attempts up n c))) \<le> length (sent c) + n"
proof (induction n arbitrary: c)
  case 0
  then show ?case by simp
next
  case (Suc n)
  obtain r c1 where t: "take_next_key c = (r, c1)"
    by (cases "take_next_key c")
  then have s1: "sent c1 = sent c"
    using take_next_key_sent [of c] by simp
  show ?case
  proof (cases r)
    case (Inl e)
    with t s1 show ?thesis by simp
  next
    case (Inr key)
    let ?c2 = "c1\<lparr>sent := sent c1 @ [key]\<rparr>"
    have "length (sent (snd (get_attempts up n ?c2))) \<le> length (sent ?c2) + n"
      by (rule Suc.IH)
    with t Inr s1 show ?thesis
      by (auto simp: http_get_def split: sum.splits)
  qed
qed

lemma get_attempts_cursor_ok:
  "cursor_ok c \<Longrightarrow> cursor_ok (snd (get_attempts up n c))"
proof (induction n arbitrary: c)
  case 0
  then show ?case by simp
next
  case (Suc n)
  have "cursor_ok (after_requests (Suc 0) c)"
    using Suc.prems by (rule cursor_ok_after)
  with Suc.IH show ?case
    by (simp add: get_attempts_Suc [OF Suc.prems] del: get_attempts.simps split: sum.splits)
qed

lemma get_attempts_error_origin:
  "cursor_ok c \<Longrightarrow> fst (get_attempts up n c) = Inl e \<Longrightarrow> \<exists>m key. up m key = Inl e"
proof (induction n arbitrary: c)
  case 0
  then show ?case by simp
next
  case (Suc n)
  have ok1: "cursor_ok (after_requests (Suc 0) c)"
    using Suc.prems(1) by (rule cursor_ok_after)
  show ?case
  proof (cases "up (length (sent c)) (key_at c 0)")
    case (Inl e')
    with Suc.prems(2) have "e' = e"
      by (simp add: get_attempts_Suc [OF Suc.prems(1)] del: get_attempts.simps)
    with Inl show ?thesis by blast
  next
    case (Inr data)
    with Suc.prems(2) have "fst (get_attempts up n (after_requests (Suc 0) c)) = Inl e"
      by (simp add: get_attempts_Suc [OF Suc.prems(1)] del: get_attempts.simps split: if_splits)
    with Suc.IH [OF ok1] show ?thesis by blast
  qed
qed


lemma get_body_eq:
  assumes "cursor_ok c"
  shows "get_body up c =
     (case get_attempts up (length (api_keys c)) c of
        (Inl e, c1) \<Rightarrow> (Inl e, c1)
      | (Inr (Some data), c1) \<Rightarrow> (Inr data, c1)
      | (Inr None, c1) \<Rightarrow> (up (length (sent c1)) (key_at c1 0), after_requests (Suc 0) c1))"
proof -
  from assms have k: "max 1 (length (api_keys c)) = length (api_keys c)"
    by (auto simp: cursor_ok_def)
  obtain r c1 where run: "get_attempts up (length (api_keys c)) c = (r, c1)"
    by (cases "get_attempts up (length (api_keys c)) c")
  have "cursor_ok (snd (get_attempts up (length (api_keys c)) c))"
    using assms by (rule get_attempts_cursor_ok)
  with run have ok1: "cursor_ok c1"
    by simp
  show ?thesis
  proof (cases r)
    case (Inl e)
    with run k show ?thesis by (simp add: get_body_def)
  next
    case (Inr found)
    with run k show ?thesis
      by (cases found) (simp_all add: get_body_def one_request [OF ok1])
  qed
qed

lemma get_body_sent_bound:
  assumes "cursor_ok c"
  shows "length (sent (snd (get_body up c))) \<le> length (sent c) + length (api_keys c) + 1"
proof -
  have "length (sent (snd (get_attempts up (length (api_keys c)) c))) \<le> length (sent c) + length (api_keys c)"
    by (rule get_attempts_sent_bound)
  then show ?thesis
    by (auto simp: get_body_eq [OF assms] split: prod.splits sum.splits option.splits)
qed

lemma get_body_error_origin:
  assumes "cursor_ok c" and "fst (get_body up c) = Inl e"
  shows "\<exists>m key. up m key = Inl e"
proof (cases "get_attempts up (length (api_keys c)) c")
  case (Pair r c1)
  show ?thesis
  proof (cases r)
    case (Inl e')
    with Pair assms(2) have "fst (get_attempts up (length (api_keys c)) c) = Inl e"
      by (simp add: get_body_eq [OF assms(1)])
    with assms(1) show ?thesis
      by (rule get_attempts_error_origin)
  next
    case (Inr found)
    with Pair assms(2) have "up (length (sent c1)) (key_at c1 0) = Inl e"
      by (cases found) (simp_all add: get_body_eq [OF assms(1)])
    then show ?thesis by blast
  qed
qed

lemma get_body_all_throttled:
  assumes "cursor_ok c"
    and "\<forall>i<length (api_keys c). \<exists>p. up (length (sent c) + i) (key_at c i) = Inr p \<and> is_throttle_payload p"
  shows "get_body up c =
    (up (length (sent c) + length (api_keys c)) (key_at c (length (api_keys c))),
     after_requests (Suc (length (api_keys c))) c)"
  by (simp add: get_body_eq [OF assms(1)] get_attempts_throttled [OF assms] key_at_after after_requests_add)

text \<open>
  Claim C3. For a pool of \<open>k \<ge> 1\<close> keys with its cursor in range, one execution of the
  body of \<open>_get\<close> issues at most \<open>k + 1\<close> requests: at most \<open>k\<close> attempts and one
  fallback. When the \<open>k\<close> attempts, made with the successive keys of the pool, are
  all answered by throttle payloads, exactly one more request goes out with the next
  key, and what the body returns is what this request yields, a throttle payload
  included; the trace then holds these \<open>k + 1\<close> requests. The body raises nothing
  of its own: an exception that leaves it was raised by a request.
\<close>

theorem get_body_throttle_fallback:
  assumes "cursor_ok c"
  shows "length (sent (snd (get_body up c))) \<le> length (sent c) + length (api_keys c) + 1
    \<and> ((\<forall>i<length (api_keys c).
           \<exists>p. up (length (sent c) + i) (key_at c i) = Inr p \<and> is_throttle_payload p)
         \<longrightarrow> get_body up c =
               (up (length (sent c) + length (api_keys c)) (key_at c (length (api_keys c))),
                after_requests (Suc (length (api_keys c))) c))
    \<and> (\<forall>e. fst (get_body up c) = Inl e \<longrightarrow> (\<exists>m key. up m key = Inl e))"
  using get_body_sent_bound [OF assms] get_body_all_throttled [OF assms]
    get_body_error_origin [OF assms]
  by blast

theorem get_body_throttle_fallback_witness:
  "cursor_ok \<lparr>api_keys = [''k1'', ''k2''], next_key_idx = 1, sent = []\<rparr>
   \<and> get_body (\<lambda>n key. Inr (JObj [(''Note'', JStr ''limit reached'')]))
        \<lparr>api_keys = [''k1'', ''k2''], next_key_idx = 1, sent = []\<rparr>
      = (Inr (JObj [(''Note'', JStr ''limit reached'')]),
         \<lparr>api_keys = [''k1'', ''k2''], next_key_idx = 0, sent = [''k2'', ''k1'', ''k2'']\<rparr>)"
proof -
  let ?c = "\<lparr>api_keys = [''k1'', ''k2''], next_key_idx = 1, sent = []\<rparr>"
  let ?up = "\<lambda>(n::nat) (key::string). (Inr (JObj [(''Note'', JStr ''limit reached'')]) :: error + json)"
  have ok: "cursor_ok ?c"
    by (simp add: cursor_ok_def)
  have thr: "is_throttle_payload (JObj [(''Note'', JStr ''limit reached'')])"
    by (simp add: is_throttle_payload_def dict_has_def dict_get_def dict_get_default_def)
  then have all: "\<forall>i<length (api_keys ?c).
      \<exists>p. ?up (length (sent ?c) + i) (key_at ?c i) = Inr p \<and> is_throttle_payload p"
    by simp
  from get_body_throttle_fallback [OF ok, of ?up]
  have "(\<forall>i<length (api_keys ?c).
           \<exists>p. ?up (length (sent ?c) + i) (key_at ?c i) = Inr p \<and> is_throttle_payload p)
         \<longrightarrow> get_body ?up ?c =
               (?up (length (sent ?c) + length (api_keys ?c)) (key_at ?c (length (api_keys ?c))),
                after_requests (Suc (length (api_keys ?c))) ?c)"
    by (elim conjE)
  with all have "get_body ?up ?c = (Inr (JObj [(''Note'', JStr ''limit reached'')]),
      after_requests (Suc (length (api_keys ?c))) ?c)"
    by (rule rev_mp)
  moreover have "after_requests (Suc (length (api_keys ?c))) ?c =
      \<lparr>api_keys = [''k1'', ''k2''], next_key_idx = 0, sent = [''k2'', ''k1'', ''k2'']\<rparr>"
    by (simp add: after_requests_def advance_def key_at_def mod_Suc)
  ultimately show ?thesis
    using ok by simp
qed

lemma mset_rotate1: "mset (rotate1 xs) = mset xs"
  by (cases xs) simp_all

lemma mset_rotate: "mset (rotate n xs) = mset xs"
  by (induct n) (simp_all add: mset_rotate1)

text \<open>
  Claim C7. For a pool of \<open>k\<close> keys and a cursor in \<open>[0, k)\<close>, \<open>k\<close> consecutive calls
  of \<open>_take_next_key\<close> return the keys of the pool in its fixed order, starting at the
  cursor and wrapping around: every position of the pool is drawn once, so the keys
  returned are those of the pool with the same multiplicities, pairwise distinct when
  the pool is. The cursor is back where it started, and it is within \<open>[0, k)\<close> after
  any number of calls.
\<close>

theorem take_keys_round_robin_cycle:
  assumes "cursor_ok c"
  shows "take_keys (length (api_keys c)) c = (Inr (rotate (nat (next_key_idx c)) (api_keys c)), c)
    \<and> mset (rotate (nat (next_key_idx c)) (api_keys c)) = mset (api_keys c)
    \<and> distinct (rotate (nat (next_key_idx c)) (api_keys c)) = distinct (api_keys c)
    \<and> (\<forall>j. cursor_ok (snd (take_keys j c)))"
proof -
  have "take_keys (length (api_keys c)) c = (Inr (rotate (nat (next_key_idx c)) (api_keys c)), c)"
    by (simp add: take_keys_run [OF assms] keys_cycle [OF assms] advance_full [OF assms])
  moreover have "\<forall>j. cursor_ok (snd (take_keys j c))"
    by (simp add: take_keys_run [OF assms] cursor_ok_advance [OF assms])
  moreover have "mset (rotate (nat (next_key_idx c)) (api_keys c)) = mset (api_keys c)"
    by (rule mset_rotate)
  ultimately show ?thesis
    by simp
qed

theorem take_keys_round_robin_cycle_witness:
  "cursor_ok \<lparr>api_keys = [''k1'', ''k2'', ''k3''], next_key_idx = 1, sent = []\<rparr>
   \<and> take_keys 3 \<lparr>api_keys = [''k1'', ''k2'', ''k3''], next_key_idx = 1, sent = []\<rparr>
      = (Inr [''k2'', ''k3'', ''k1''],
         \<lparr>api_keys = [''k1'', ''k2'', ''k3''], next_key_idx = 1, sent = []\<rparr>)"
proof -
  let ?c = "\<lparr>api_keys = [''k1'', ''k2'', ''k3''], next_key_idx = 1, sent = []\<rparr>"
  have ok: "cursor_ok ?c"
    by (simp add: cursor_ok_def)
  have len: "length (api_keys ?c) = 3"
    by simp
  have rot: "rotate (nat (next_key_idx ?c)) (api_keys ?c) = [''k2'', ''k3'', ''k1'']"
    by (simp add: rotate_drop_take)
  from take_keys_round_robin_cycle [OF ok]
  have "take_keys (length (api_keys ?c)) ?c = (Inr (rotate (nat (next_key_idx ?c)) (api_keys ?c)), ?c)"
    by (rule conjunct1)
  then have "take_keys 3 ?c = (Inr [''k2'', ''k3'', ''k1''], ?c)"
    unfolding len rot .
  with ok show ?thesis
    by (rule conjI)
qed


lemma get_attempts_sent_prefix:
  "\<exists>ys. sent (snd (get_attempts up n c)) = sent c @ ys"
proof (induction n arbitrary: c)
  case 0
  then show ?case by simp
next
  case (Suc n)
  obtain r c1 where t: "take_next_key c = (r, c1)"
    by (cases "take_next_key c")
  then have s1: "sent c1 = sent c"
    using take_next_key_sent [of c] by simp
  show ?case
  proof (cases r)
    case (Inl e)
    with t s1 show ?thesis by simp
  next
    case (Inr key)
    let ?c2 = "c1\<lparr>sent := sent c1 @ [key]\<rparr>"
    obtain ys where "sent (snd (get_attempts up n ?c2)) = sent ?c2 @ ys"
      using Suc.IH by blast
    with t Inr s1 show ?thesis
      by (auto simp: http_get_def split: sum.splits)
  qed
qed

lemma get_attempts_first_key:
  assumes "cursor_ok c"
  shows "\<exists>ys. sent (snd (get_attempts up (Suc n) c)) = sent c @ key_at c 0 # ys"
proof -
  obtain ys where "sent (snd (get_attempts up n (after_requests (Suc 0) c))) =
      sent (after_requests (Suc 0) c) @ ys"
    using get_attempts_sent_prefix by blast
  then show ?thesis
    by (auto simp: get_attempts_Suc [OF assms] simp del: get_attempts.simps split: sum.splits)
qed

lemma get_body_sent_prefix:
  assumes "cursor_ok c"
  shows "\<exists>ys. sent (snd (get_body up c)) = sent (snd (get_attempts up (length (api_keys c)) c)) @ ys"
  by (auto simp: get_body_eq [OF assms] split: prod.splits sum.splits option.splits)

lemma get_body_accepts_first:
  assumes "cursor_ok c" and "up (length (sent c)) (key_at c 0) = Inr payload"
    and "\<not> is_throttle_payload payload"
  shows "get_body up c = (Inr payload, after_requests 1 c)"
proof -
  from assms(1) have "0 < length (api_keys c)"
    by (auto simp: cursor_ok_def)
  moreover have "\<forall>p. up (length (sent c) + 0) (key_at c 0) = Inr p \<longrightarrow> \<not> is_throttle_payload p"
    using assms(2,3) by simp
  ultimately have "get_attempts up (length (api_keys c)) c =
      (map_sum id Some (up (length (sent c) + 0) (key_at c 0)), after_requests (Suc 0) c)"
    using assms(1) by (intro get_attempts_stops) simp_all
  with assms(2) show ?thesis
    by (simp add: get_body_eq [OF assms(1)])
qed

lemma get_body_retries_throttled:
  assumes "cursor_ok c" and "up (length (sent c)) (key_at c 0) = Inr payload"
    and "is_throttle_payload payload"
  shows "\<exists>ys. sent (snd (get_body up c)) = sent c @ key_at c 0 # key_at c 1 # ys"
proof -
  from assms(1) obtain m where k: "length (api_keys c) = Suc m"
    by (cases "length (api_keys c)") (auto simp: cursor_ok_def)
  let ?c1 = "after_requests (Suc 0) c"
  have ok1: "cursor_ok ?c1"
    using assms(1) by (rule cursor_ok_after)
  have run: "get_attempts up (Suc m) c = get_attempts up m ?c1"
    using assms(2,3) by (simp add: get_attempts_Suc [OF assms(1)] del: get_attempts.simps)
  show ?thesis
  proof (cases m)
    case 0
    with run k show ?thesis
      by (simp add: get_body_eq [OF assms(1)] key_at_after)
  next
    case (Suc m')
    obtain ys where ys: "sent (snd (get_attempts up (Suc m') ?c1)) = sent ?c1 @ key_at ?c1 0 # ys"
      using get_attempts_first_key [OF ok1] by blast
    obtain zs where "sent (snd (get_body up c)) = sent (snd (get_attempts up (length (api_keys c)) c)) @ zs"
      using get_body_sent_prefix [OF assms(1)] by blast
    with ys run k Suc show ?thesis
      by (simp add: key_at_after)
  qed
qed

lemma is_throttle_payload_iff:
  "is_throttle_payload payload = (\<exists>d t. payload = JObj d \<and> map_of d ''Note'' = Some (JStr t))"
  by (cases payload)
    (auto simp: is_throttle_payload_def dict_has_def dict_get_def dict_get_default_def
      split: option.splits json.splits)

lemma raise_if_av_error_iff:
  "(\<exists>e. raise_if_av_error payload = Inl e) =
   (\<exists>d. payload = JObj d
      \<and> (dict_has d ''Note'' \<or> dict_has d ''Information'' \<or> dict_has d ''Error Message''))"
  by (cases payload) (auto simp: raise_if_av_error_def)




text \<open>
  Claim C6, as the code has it. With an empty pool every execution of the body of
  \<open>_get\<close> raises \<open>NoCredentials\<close> at its first draw, before any request: the trace of
  requests and the cursor are unchanged. The \<open>retry\<close> decorator retries on this
  exception as on any other: the call ends after the third attempt with a
  \<open>RetryError\<close> around it, never with a response, and has issued no request.
\<close>

theorem no_credentials_retried:
  assumes "api_keys c = []"
  shows "get_body up c = (Inl NoCredentials, c)
    \<and> get up c = (Inl (RetryError 3 NoCredentials), c)"
proof -
  have body: "get_body up c = (Inl NoCredentials, c)"
    using assms by (simp add: get_body_def take_next_key_def)
  have "retrying (Suc (Suc 0)) 1 (get_body up) c = (Inl (RetryError (Suc (Suc 1)) NoCredentials), c)"
    by (simp add: body)
  then show ?thesis
    using body by (simp add: get_def numeral_2_eq_2 numeral_3_eq_3)
qed

theorem no_credentials_retried_witness:
  "api_keys \<lparr>api_keys = [], next_key_idx = 0, sent = [''k9'']\<rparr> = []
   \<and> get_body (\<lambda>n key. Inr JNull) \<lparr>api_keys = [], next_key_idx = 0, sent = [''k9'']\<rparr>
       = (Inl NoCredentials, \<lparr>api_keys = [], next_key_idx = 0, sent = [''k9'']\<rparr>)
   \<and> get (\<lambda>n key. Inr JNull) \<lparr>api_keys = [], next_key_idx = 0, sent = [''k9'']\<rparr>
       = (Inl (RetryError 3 NoCredentials), \<lparr>api_keys = [], next_key_idx = 0, sent = [''k9'']\<rparr>)"
  using no_credentials_retried [of "\<lparr>api_keys = [], next_key_idx = 0, sent = [''k9'']\<rparr>" "\<lambda>n key. Inr JNull"]
  by simp

text \<open>
  Claim C6 as stated fails: with an empty pool the call does not end with
  \<open>NoCredentials\<close> itself after one attempt, but with the \<open>RetryError\<close> of a third
  attempt.
\<close>

theorem no_credentials_is_retried:
  "fst (get (\<lambda>n key. Inr JNull) \<lparr>api_keys = [], next_key_idx = 0, sent = []\<rparr>)
     = Inl (RetryError 3 NoCredentials)
   \<and> fst (get (\<lambda>n key. Inr JNull) \<lparr>api_keys = [], next_key_idx = 0, sent = []\<rparr>)
     \<noteq> Inl NoCredentials"
  by (simp add: get_def get_body_def take_next_key_def numeral_2_eq_2 numeral_3_eq_3)

section \<open>Properties of the guidance builder\<close>

lemma bind_err_simps [simp]:
  "bind_err (Inl e) f = Inl e"
  "bind_err (Inr x) f = f x"
  by (simp_all add: bind_err_def)

lemma map_of_dict_set:
  "map_of (dict_set k v d) k' = (if k' = k then Some v else map_of d k')"
  by (induction d) auto

lemma dict_get_dict_set:
  "dict_get (dict_set k v d) k' = (if k' = k then v else dict_get d k')"
  by (simp add: dict_get_def dict_get_default_def map_of_dict_set)

lemma dict_get_default_dict_set:
  "dict_get_default (dict_set k v d) k' dflt = (if k' = k then v else dict_get_default d k' dflt)"
  by (simp add: dict_get_default_def map_of_dict_set)

lemma bounded_clamped:
  "number_or_none x \<Longrightarrow> bounded x lo hi = Inr (clamped x lo hi)"
  by (cases x) (simp_all add: number_or_none_def bounded_def clamped_def)

lemma annotate_scored: "scorable row \<Longrightarrow> annotate row = Inr (scored row)"
  by (simp add: scorable_def annotate_def scored_def bounded_clamped Let_def)

lemma map_err_map:
  "\<forall>x\<in>set xs. f x = Inr (g x) \<Longrightarrow> map_err f xs = Inr (map g xs)"
  by (induction xs) simp_all

lemma sorted_by_ok:
  assumes "\<forall>x\<in>set xs. key x = Inr (k x)"
  shows "\<exists>ys. sorted_by key r xs = Inr ys"
  by (simp add: sorted_by_def map_err_map [OF assms])

lemma scored_risk: "num_field (scored row) ''risk_score'' =
    Inr (py_round (clamped (dict_get row ''volatility_proxy'') 0 1) 4)"
  by (simp add: num_field_def scored_def Let_def dict_get_default_dict_set)

lemma scored_score: "num_field (scored row) ''signal_score'' =
    Inr (py_round (signal_score_of (clamped (dict_get row ''momentum_1d'') (- 1) 1)
       (clamped (dict_get row ''sentiment'') (- 1) 1)
       (clamped (dict_get row ''volatility_proxy'') 0 1)) 4)"
  by (simp add: num_field_def scored_def Let_def dict_get_default_dict_set)

lemma scored_momentum:
  assumes "scorable row"
  shows "\<exists>m. num_field (scored row) ''momentum_1d'' = Inr m"
proof -
  have same: "dict_get_default (scored row) ''momentum_1d'' (JNum 0)
      = dict_get_default row ''momentum_1d'' (JNum 0)"
    by (simp add: scored_def Let_def dict_get_default_dict_set)
  from assms have "number_or_none (dict_get row ''momentum_1d'')"
    and "map_of row ''momentum_1d'' \<noteq> Some JNull"
    by (simp_all add: scorable_def)
  then have "\<exists>m. as_number (dict_get_default row ''momentum_1d'' (JNum 0)) = Inr m"
    by (cases "map_of row ''momentum_1d''")
      (auto simp: dict_get_def dict_get_default_def number_or_none_def split: json.splits)
  with same show ?thesis
    by (simp add: num_field_def)
qed


lemma sorted_by_total:
  assumes "\<forall>x\<in>set xs. \<exists>y. key x = Inr y"
  shows "\<exists>ys. sorted_by key r xs = Inr ys"
proof -
  from assms have "\<forall>x\<in>set xs. key x = Inr (projr (key x))"
    by auto
  then show ?thesis
    by (rule sorted_by_ok)
qed

lemma guidance_of_scorable:
  assumes "\<forall>row\<in>set (stock_rows @ fx_rows @ crypto_rows). scorable row"
  shows "\<exists>g. build_market_guidance stock_rows fx_rows crypto_rows news_summary = Inr g
    \<and> dict_get g ''signals'' = rows_json (map scored (stock_rows @ fx_rows @ crypto_rows))"
proof -
  let ?rows = "stock_rows @ fx_rows @ crypto_rows"
  let ?merged = "map scored ?rows"
  from assms have "\<forall>row\<in>set ?rows. annotate row = Inr (scored row)"
    by (simp add: annotate_scored)
  then have merged: "map_err annotate ?rows = Inr ?merged"
    by (rule map_err_map)
  have k1: "\<forall>r\<in>set ?merged. \<exists>y. safest_key r = Inr y"
    by (auto simp: safest_key_def scored_risk scored_score)
  have k2: "\<forall>r\<in>set ?merged. \<exists>y. riskiest_key r = Inr y"
  proof
    fix r assume "r \<in> set ?merged"
    then obtain row where row: "row \<in> set ?rows" "r = scored row"
      by auto
    with assms have "scorable row"
      by blast
    then obtain m where "num_field (scored row) ''momentum_1d'' = Inr m"
      using scored_momentum by blast
    with row show "\<exists>y. riskiest_key r = Inr y"
      by (simp add: riskiest_key_def scored_risk)
  qed
  have k3: "\<forall>r\<in>set ?merged. \<exists>y. score_key r = Inr y"
    by (auto simp: score_key_def scored_score)
  have k4: "\<forall>r\<in>set ?merged. \<exists>y. abs_score_key r = Inr y"
    by (auto simp: abs_score_key_def scored_score)
  obtain safest where s1: "sorted_by safest_key False ?merged = Inr safest"
    using sorted_by_total [OF k1] by blast
  obtain riskiest where s2: "sorted_by riskiest_key True ?merged = Inr riskiest"
    using sorted_by_total [OF k2] by blast
  obtain by_score_desc where s3: "sorted_by score_key True ?merged = Inr by_score_desc"
    using sorted_by_total [OF k3] by blast
  obtain by_score where s4: "sorted_by score_key False ?merged = Inr by_score"
    using sorted_by_total [OF k3] by blast
  obtain by_abs where s5: "sorted_by abs_score_key False ?merged = Inr by_abs"
    using sorted_by_total [OF k4] by blast
  show ?thesis
    unfolding build_market_guidance_def Let_def merged bind_err_simps s1 s2 s3 s4 s5
    by (simp add: dict_get_def dict_get_default_def)
qed


lemma scored_fields:
  "dict_get (scored row) ''signal_score'' =
     JNum (py_round (signal_score_of (clamped (dict_get row ''momentum_1d'') (- 1) 1)
       (clamped (dict_get row ''sentiment'') (- 1) 1)
       (clamped (dict_get row ''volatility_proxy'') 0 1)) 4)"
  "dict_get (scored row) ''signal'' =
     JStr (label_from_score (signal_score_of (clamped (dict_get row ''momentum_1d'') (- 1) 1)
       (clamped (dict_get row ''sentiment'') (- 1) 1)
       (clamped (dict_get row ''volatility_proxy'') 0 1)))"
  "dict_get (scored row) ''risk_score'' =
     JNum (py_round (clamped (dict_get row ''volatility_proxy'') 0 1) 4)"
  "k \<noteq> ''signal_score'' \<and> k \<noteq> ''signal'' \<and> k \<noteq> ''risk_score''
     \<Longrightarrow> map_of (scored row) k = map_of row k"
  by (simp_all add: scored_def Let_def dict_get_dict_set map_of_dict_set)

lemma scored_spec:
  "dict_get (scored row) ''signal_score'' =
      JNum (py_round ((1 / 2) * clamped (dict_get row ''momentum_1d'') (- 1) 1
                      + (35 / 100) * clamped (dict_get row ''sentiment'') (- 1) 1
                      - (1 / 4) * clamped (dict_get row ''volatility_proxy'') 0 1) 4)
   \<and> dict_get (scored row) ''signal'' =
      JStr (if 22 / 100 \<le> (1 / 2) * clamped (dict_get row ''momentum_1d'') (- 1) 1
                      + (35 / 100) * clamped (dict_get row ''sentiment'') (- 1) 1
                      - (1 / 4) * clamped (dict_get row ''volatility_proxy'') 0 1 then ''buy''
            else if (1 / 2) * clamped (dict_get row ''momentum_1d'') (- 1) 1
                      + (35 / 100) * clamped (dict_get row ''sentiment'') (- 1) 1
                      - (1 / 4) * clamped (dict_get row ''volatility_proxy'') 0 1 \<le> - (22 / 100)
            then ''sell'' else ''hold'')
   \<and> dict_get (scored row) ''risk_score'' =
      JNum (py_round (clamped (dict_get row ''volatility_proxy'') 0 1) 4)
   \<and> (\<forall>k. k \<noteq> ''signal_score'' \<and> k \<noteq> ''signal'' \<and> k \<noteq> ''risk_score''
          \<longrightarrow> map_of (scored row) k = map_of row k)"
proof (intro conjI allI impI)
  fix k assume "k \<noteq> ''signal_score'' \<and> k \<noteq> ''signal'' \<and> k \<noteq> ''risk_score''"
  then show "map_of (scored row) k = map_of row k"
    by (rule scored_fields(4))
qed (simp_all only: scored_fields(1-3) signal_score_of_def label_from_score_def)




section \<open>Properties of the refresh orchestrator\<close>

lemma status_only_refl [simp]: "status_only s s"
  by (simp add: status_only_def)

lemma status_only_update [simp]: "status_only s (s\<lparr>refresh_status := st\<rparr>)"
  by (simp add: status_only_def)

lemma status_only_trans: "status_only s s1 \<Longrightarrow> status_only s1 s2 \<Longrightarrow> status_only s s2"
  by (cases s, cases s1, cases s2) (simp add: status_only_def)

lemma status_only_fields:
  assumes "status_only s s'"
  shows "snapshot s' = snapshot s" "tasks s' = tasks s" "refresh_task s' = refresh_task s"
    "stopping s' = stopping s" "stocks s' = stocks s" "cryptos s' = cryptos s"
    "fx_pairs s' = fx_pairs s" "tz s' = tz s"
  using assms by (cases s, cases s', simp add: status_only_def)+

lemma status_only_derived:
  assumes "status_only s s'"
  shows "total_steps_of s' = total_steps_of s" "step_labels s' = step_labels s"
    "store_get s' k dflt = store_get s k dflt"
  using status_only_fields [OF assms]
  by (simp_all add: total_steps_of_def step_labels_def store_get_def)

lemma status_only_begin: "status_only s (refresh_begin why track env s)"
  by (simp add: refresh_begin_def)

lemma status_only_mark: "status_only s (mark_step l n s)"
  by (simp add: mark_step_def)

lemma status_only_fold_marks:
  "status_only s (fold (\<lambda>(i, l). mark_step l (Suc i)) xs s)"
proof (induction xs arbitrary: s)
  case Nil
  then show ?case by simp
next
  case (Cons x xs)
  obtain i l where x: "x = (i, l)"
    by (cases x)
  have "status_only s (mark_step l (Suc i) s)"
    by (rule status_only_mark)
  moreover have "status_only (mark_step l (Suc i) s)
      (fold (\<lambda>(i, l). mark_step l (Suc i)) xs (mark_step l (Suc i) s))"
    by (rule Cons.IH)
  ultimately show ?case
    unfolding x by (simp add: status_only_trans)
qed

lemma status_only_marks: "status_only s (refresh_marks track s)"
proof -
  have "status_only s (fold (\<lambda>(i, l). mark_step l (Suc i)) (enumerate 0 (step_labels s)) s)"
    by (rule status_only_fold_marks)
  then show ?thesis
    by (simp add: refresh_marks_def)
qed

lemma store_snapshot_cases:
  "store_snapshot snap s = Inr s' \<Longrightarrow>
     \<exists>h. store_get s ''history'' (JArr []) = Inr (JArr h) \<and> s' = s\<lparr>snapshot := stored snap h\<rparr>"
  by (auto simp: store_snapshot_def stored_def bind_err_def split: sum.splits json.splits)


lemma stored_in_status: "stored_in s snap s' \<Longrightarrow> stored_in s snap (s'\<lparr>refresh_status := st\<rparr>)"
  by (cases s, cases s') (auto simp: stored_in_def)

lemma stored_in_after_status:
  assumes "status_only s s1" and "store_snapshot snap s1 = Inr s2"
  shows "stored_in s snap s2"
proof -
  from assms(2) obtain h where h: "store_get s1 ''history'' (JArr []) = Inr (JArr h)"
    and s2: "s2 = s1\<lparr>snapshot := stored snap h\<rparr>"
    using store_snapshot_cases by blast
  from assms(1) have "store_get s ''history'' (JArr []) = Inr (JArr h)"
    using h by (simp add: status_only_derived)
  moreover from assms(1) have "s2 = s\<lparr>snapshot := stored snap h, refresh_status := refresh_status s2\<rparr>"
    unfolding s2 by (cases s, cases s1) (simp add: status_only_def)
  ultimately show ?thesis
    unfolding stored_in_def by blast
qed

lemma refresh_try_cases:
  assumes "refresh_try why track env s = (r, s')"
  shows "((\<exists>e. r = Inl e) \<and> status_only s s')
    \<or> (\<exists>snap. stored_in s snap s'
          \<and> (case persist_error env of Some e \<Rightarrow> r = Inl e | None \<Rightarrow> r = Inr snap))"
proof (cases "bind_err (news_raw env) (\<lambda>raw.
             bind_err (raise_if_av_error raw) (\<lambda>u. news_aggregate env raw))")
  case (Inl e)
  with assms have "r = Inl e" and "s' = s"
    by (simp_all add: refresh_try_def)
  then show ?thesis
    by simp
next
  case (Inr news_summary)
  define s1 where "s1 = (if track
      then mark_step ''Fetched market news sentiment'' (Suc (length (step_labels s))) s else s)"
  have so1: "status_only s s1"
    by (simp add: s1_def status_only_mark)
  show ?thesis
  proof (cases "build_snapshot why env s1 news_summary")
    case (Inl e)
    with assms Inr have "r = Inl e" and "s' = s1"
      by (simp_all add: refresh_try_def s1_def [symmetric])
    with so1 show ?thesis
      by simp
  next
    case snap: (Inr snap)
    show ?thesis
    proof (cases "store_snapshot snap s1")
      case (Inl e)
      with assms Inr snap have "r = Inl e" and "s' = s1"
        by (simp_all add: refresh_try_def s1_def [symmetric])
      with so1 show ?thesis
        by simp
    next
      case s2: (Inr s2)
      have st: "stored_in s snap s2"
        using so1 s2 by (rule stored_in_after_status)
      show ?thesis
      proof (cases "persist_error env")
        case None
        with assms Inr snap s2 have "r = Inr snap"
          and "s' = s2 \<or> (\<exists>status. s' = s2\<lparr>refresh_status := status\<rparr>)"
          by (auto simp: refresh_try_def s1_def [symmetric] split: if_splits)
        with st None show ?thesis
          by (auto intro: stored_in_status)
      next
        case (Some e)
        with assms Inr snap s2 have "r = Inl e" and "s' = s2"
          by (simp_all add: refresh_try_def s1_def [symmetric])
        with st Some show ?thesis
          by auto
      qed
    qed
  qed
qed

lemma refresh_finish_cases:
  assumes "refresh_finish why track env s = (r, s')"
  shows "((\<exists>e. r = Inl e) \<and> status_only s s')
    \<or> (\<exists>snap. stored_in s snap s'
          \<and> (case persist_error env of Some e \<Rightarrow> r = Inl e | None \<Rightarrow> r = Inr snap))"
proof -
  obtain r1 s1 where t: "refresh_try why track env s = (r1, s1)"
    by (cases "refresh_try why track env s")
  from assms t have r: "r = r1"
    by (cases r1) (simp_all add: refresh_finish_def)
  from assms t have "s' = s1 \<or> (\<exists>status. s' = s1\<lparr>refresh_status := status\<rparr>)"
    by (cases r1) (auto simp: refresh_finish_def split: if_splits)
  moreover have "status_only s s1 \<Longrightarrow> status_only s (s1\<lparr>refresh_status := status\<rparr>)" for status
    using status_only_trans [OF _ status_only_update] .
  ultimately show ?thesis
    using refresh_try_cases [OF t] unfolding r
    by (auto intro: stored_in_status)
qed

lemma stored_in_from_status:
  assumes "status_only s s0" and "stored_in s0 snap s'"
  shows "stored_in s snap s'"
proof -
  from assms(2) obtain h where h: "store_get s0 ''history'' (JArr []) = Inr (JArr h)"
    and s': "s' = s0\<lparr>snapshot := stored snap h, refresh_status := refresh_status s'\<rparr>"
    unfolding stored_in_def by blast
  from assms(1) h have "store_get s ''history'' (JArr []) = Inr (JArr h)"
    by (simp add: status_only_derived)
  moreover from assms(1) s' have "s' = s\<lparr>snapshot := stored snap h, refresh_status := refresh_status s'\<rparr>"
    by (cases s, cases s0, cases s') (simp add: status_only_def)
  ultimately show ?thesis
    unfolding stored_in_def by blast
qed

lemma refresh_once_cases:
  assumes "refresh_once why track env s = (r, s')"
  shows "((\<exists>e. r = Inl e) \<and> status_only s s')
    \<or> (\<exists>snap. stored_in s snap s'
          \<and> (case persist_error env of Some e \<Rightarrow> r = Inl e | None \<Rightarrow> r = Inr snap))"
proof -
  let ?s0 = "refresh_marks track (refresh_begin why track env s)"
  have so: "status_only s ?s0"
    using status_only_begin status_only_marks by (rule status_only_trans)
  from assms have "refresh_finish why track env ?s0 = (r, s')"
    by (simp add: refresh_once_def)
  from refresh_finish_cases [OF this] so show ?thesis
    by (auto intro: status_only_trans stored_in_from_status)
qed


lemma slice_last: "0 \<le> n \<Longrightarrow> py_slice_from (- n) xs = (if n = 0 then xs else drop (length xs - nat n) xs)"
  by (auto simp: py_slice_from_def nat_diff_distrib')

lemma get_history_of_list:
  assumes "store_get s ''history'' (JArr []) = Inr (JArr h)"
  shows "get_history s n = Inr (JArr (py_slice_from (- n) h))"
  using assms by (simp add: get_history_def)

text \<open>
  Claim C9, as the code has it. For a store whose history is a list and a requested
  limit \<open>n \<ge> 1\<close>, \<open>get_history\<close> returns the last \<open>min n (length history)\<close> entries
  of the history in their order, the most recent last: never more than \<open>n\<close>.
\<close>

theorem get_history_last_entries:
  assumes "store_get s ''history'' (JArr []) = Inr (JArr h)" and "1 \<le> n"
  shows "get_history s n = Inr (JArr (drop (length h - nat n) h))
    \<and> length (drop (length h - nat n) h) = min (nat n) (length h)
    \<and> length (drop (length h - nat n) h) \<le> nat n"
proof -
  from assms(2) have "py_slice_from (- n) h = drop (length h - nat n) h"
    by (simp add: slice_last)
  with assms(1) show ?thesis
    by (auto simp: get_history_of_list)
qed

theorem get_history_last_entries_witness:
  "store_get \<lparr>stocks = [], cryptos = [], fx_pairs = [], tz = ''UTC'',
       snapshot = JObj [(''history'', JArr [JStr ''s1'', JStr ''s2'', JStr ''s3''])],
       refresh_status = initial_status JNull, refresh_task = None, tasks = [], stopping = None\<rparr>
     ''history'' (JArr []) = Inr (JArr [JStr ''s1'', JStr ''s2'', JStr ''s3''])
   \<and> (1 :: int) \<le> 2
   \<and> get_history \<lparr>stocks = [], cryptos = [], fx_pairs = [], tz = ''UTC'',
       snapshot = JObj [(''history'', JArr [JStr ''s1'', JStr ''s2'', JStr ''s3''])],
       refresh_status = initial_status JNull, refresh_task = None, tasks = [], stopping = None\<rparr> 2
     = Inr (JArr [JStr ''s2'', JStr ''s3''])"
proof -
  let ?s = "\<lparr>stocks = [], cryptos = [], fx_pairs = [], tz = ''UTC'',
       snapshot = JObj [(''history'', JArr [JStr ''s1'', JStr ''s2'', JStr ''s3''])],
       refresh_status = initial_status JNull, refresh_task = None, tasks = [], stopping = None\<rparr>"
  have h: "store_get ?s ''history'' (JArr []) = Inr (JArr [JStr ''s1'', JStr ''s2'', JStr ''s3''])"
    by (simp add: store_get_def dict_get_default_def)
  have n: "(1 :: int) \<le> 2"
    by simp
  from get_history_last_entries [OF h n] h show ?thesis
    by simp
qed

text \<open>
  Claim C9 as stated fails at the limit 0: \<open>history[-0:]\<close> is the whole history, here
  three entries.
\<close>

theorem get_history_zero_returns_all:
  "get_history \<lparr>stocks = [], cryptos = [], fx_pairs = [], tz = ''UTC'',
       snapshot = JObj [(''history'', JArr [JStr ''s1'', JStr ''s2'', JStr ''s3''])],
       refresh_status = initial_status JNull, refresh_task = None, tasks = [], stopping = None\<rparr> 0
     = Inr (JArr [JStr ''s1'', JStr ''s2'', JStr ''s3''])
   \<and> \<not> length [JStr ''s1'', JStr ''s2'', JStr ''s3''] \<le> (0 :: nat)"
  by (simp add: get_history_def store_get_def dict_get_default_def py_slice_from_def)

text \<open>The store of a running service is a dictionary.\<close>

lemma stored_in_snapshot: "stored_in s snap s' \<Longrightarrow> \<exists>h. snapshot s' = stored snap h"
  by (cases s, cases s') (auto simp: stored_in_def)

lemma refresh_finish_store:
  "snapshot (snd (refresh_finish why track env s)) = snapshot s
   \<or> (\<exists>snap h. snapshot (snd (refresh_finish why track env s)) = stored snap h)"
proof -
  obtain r s' where run: "refresh_finish why track env s = (r, s')"
    by (cases "refresh_finish why track env s")
  from refresh_finish_cases [OF run] show ?thesis
    unfolding run using status_only_fields(1) stored_in_snapshot by fastforce
qed

lemma set_phase_snapshot [simp]: "snapshot (set_phase t p s) = snapshot s"
  by (simp add: set_phase_def)

lemma store_is_dict: "reachable s \<Longrightarrow> \<exists>d. snapshot s = JObj d"
proof (induction rule: reachable.induct)
  case (constructed watch_stocks watch_cryptos watch_fx zone doc s)
  then show ?case
    by (auto simp: new_service_def split: json.splits)
next
  case (started s why now)
  then show ?case
    by (auto simp: start_refresh_def Let_def)
next
  case (begun s t env)
  then show ?case
    using status_only_fields(1) [OF status_only_begin]
    by (simp add: task_begin_def)
next
  case (marked s t k)
  then show ?case
    using status_only_fields(1) [OF status_only_mark]
    by (simp add: task_mark_def)
next
  case (finished s t k env)
  then show ?case
    using refresh_finish_store [of "task_reason (tasks s ! t)" True env s]
    by (auto simp: task_finish_def stored_def)
next
  case (stop_called s t)
  then show ?case
    by (simp add: stop_cancel_def)
next
  case (cancelled s t)
  then show ?case
    by (auto simp: task_cancelled_def split: task_phase.splits)
next
  case (stop_returned s t)
  then show ?case
    by (simp add: stop_resume_def)
qed

text \<open>
  Claim C10. In every state of the running service \<open>get_latest\<close> returns a value and
  does not raise; when the store has no \<open>latest\<close> entry it returns the empty
  dictionary. A service started with the store file absent or unparsable is
  constructed with the empty store, where \<open>get_latest\<close> returns the empty dictionary.
\<close>

theorem get_latest_total:
  assumes "reachable s"
  shows "(\<exists>v. get_latest s = Inr v)
    \<and> (\<forall>d. snapshot s = JObj d \<and> \<not> dict_has d ''latest'' \<longrightarrow> get_latest s = Inr (JObj []))
    \<and> (\<exists>s0. new_service watch_stocks watch_cryptos watch_fx zone Absent = Inr s0
          \<and> snapshot s0 = JObj [] \<and> get_latest s0 = Inr (JObj []))
    \<and> (\<exists>s0. new_service watch_stocks watch_cryptos watch_fx zone Unparsable = Inr s0
          \<and> snapshot s0 = JObj [] \<and> get_latest s0 = Inr (JObj []))"
proof -
  from assms obtain d where "snapshot s = JObj d"
    using store_is_dict by blast
  then have "\<exists>v. get_latest s = Inr v"
    by (simp add: get_latest_def store_get_def)
  moreover have "\<forall>d. snapshot s = JObj d \<and> \<not> dict_has d ''latest'' \<longrightarrow> get_latest s = Inr (JObj [])"
    by (auto simp: get_latest_def store_get_def dict_has_def dict_get_default_def)
  moreover have "\<exists>s0. new_service watch_stocks watch_cryptos watch_fx zone Absent = Inr s0
          \<and> snapshot s0 = JObj [] \<and> get_latest s0 = Inr (JObj [])"
    by (simp add: new_service_def load_from_disk_def get_latest_def store_get_def dict_get_default_def)
  moreover have "\<exists>s0. new_service watch_stocks watch_cryptos watch_fx zone Unparsable = Inr s0
          \<and> snapshot s0 = JObj [] \<and> get_latest s0 = Inr (JObj [])"
    by (simp add: new_service_def load_from_disk_def get_latest_def store_get_def dict_get_default_def)
  ultimately show ?thesis
    by blast
qed

theorem get_latest_total_witness:
  "reachable \<lparr>stocks = [''AAPL''], cryptos = [], fx_pairs = [], tz = ''UTC'', snapshot = JObj [],
       refresh_status = initial_status JNull, refresh_task = None, tasks = [], stopping = None\<rparr>
   \<and> get_latest \<lparr>stocks = [''AAPL''], cryptos = [], fx_pairs = [], tz = ''UTC'', snapshot = JObj [],
       refresh_status = initial_status JNull, refresh_task = None, tasks = [], stopping = None\<rparr>
     = Inr (JObj [])"
proof -
  let ?s = "\<lparr>stocks = [''AAPL''], cryptos = [], fx_pairs = [], tz = ''UTC'', snapshot = JObj [],
       refresh_status = initial_status JNull, refresh_task = None, tasks = [], stopping = None\<rparr>"
  have "new_service [''AAPL''] [] [] ''UTC'' Unparsable = Inr ?s"
    by (simp add: new_service_def load_from_disk_def dict_get_def dict_get_default_def)
  then have r: "reachable ?s"
    by (rule reachable.constructed)
  have "\<not> dict_has [] ''latest''"
    by (simp add: dict_has_def)
  with get_latest_total [OF r] r show ?thesis
    by simp
qed


lemma slice_200: "py_slice_from (- 200) xs = drop (length xs - 200) xs"
  by (simp add: py_slice_from_def nat_diff_distrib')

lemma drop_recent_append:
  "drop (length (drop (length xs - n) xs @ ys) - n) (drop (length xs - n) xs @ ys)
     = drop (length (xs @ ys) - n) (xs @ ys)"
proof (cases "length xs \<le> n")
  case True
  then show ?thesis by simp
next
  case False
  then have "length (drop (length xs - n) xs) = n"
    by simp
  then have "drop (length (drop (length xs - n) xs @ ys) - n) (drop (length xs - n) xs @ ys)
      = drop (length ys) (drop (length xs - n) xs @ ys)"
    by simp
  also have "\<dots> = drop (length ys + (length xs - n)) (xs @ ys)"
    by (simp add: drop_append)
  also have "length ys + (length xs - n) = length (xs @ ys) - n"
    using False by simp
  finally show ?thesis .
qed

lemma refresh_once_completed:
  assumes "refresh_once why track env s = (Inr snap, s')"
  shows "stored_in s snap s'"
  using refresh_once_cases [OF assms] by (auto split: option.splits)

lemma stored_in_store:
  assumes "stored_in s snap s'" and "store_get s ''history'' (JArr []) = Inr (JArr h)"
  shows "snapshot s' = JObj [(''latest'', JObj snap),
      (''history'', JArr (drop (length (h @ [JObj snap]) - 200) (h @ [JObj snap])))]"
  using assms by (cases s, cases s') (auto simp: stored_in_def stored_def slice_200)

lemma stored_in_history: "stored_in s snap s' \<Longrightarrow> \<exists>h. store_get s ''history'' (JArr []) = Inr (JArr h)"
  by (auto simp: stored_in_def)

lemma refresh_all_length: "refresh_all runs s = (rs, s') \<Longrightarrow> length rs = length runs"
  by (induction runs arbitrary: s rs s') (auto split: prod.splits)

lemma refresh_all_completed:
  assumes "refresh_all runs s0 = (map Inr snaps, s)" and "runs \<noteq> []"
    and "store_get s0 ''history'' (JArr []) = Inr (JArr h0)"
  shows "snapshot s = JObj [(''latest'', JObj (last snaps)),
      (''history'', JArr (drop (length (h0 @ map JObj snaps) - 200) (h0 @ map JObj snaps)))]"
  using assms
proof (induction runs arbitrary: s0 snaps h0)
  case Nil
  then show ?case by simp
next
  case (Cons run runs)
  obtain why track env where run: "run = (why, track, env)"
    by (cases run)
  obtain r s1 where one: "refresh_once why track env s0 = (r, s1)"
    by (cases "refresh_once why track env s0")
  obtain rs s2 where rest: "refresh_all runs s1 = (rs, s2)"
    by (cases "refresh_all runs s1")
  from Cons.prems(1) have all: "r # rs = map Inr snaps" and s: "s2 = s"
    by (simp_all add: run one rest)
  then obtain snap snaps' where snaps: "snaps = snap # snaps'" and r: "r = Inr snap"
    and rs: "rs = map Inr snaps'"
    by (cases snaps) auto
  have "stored_in s0 snap s1"
    using one unfolding r by (rule refresh_once_completed)
  then have store1: "snapshot s1 = JObj [(''latest'', JObj snap),
      (''history'', JArr (drop (length (h0 @ [JObj snap]) - 200) (h0 @ [JObj snap])))]"
    using Cons.prems(3) by (rule stored_in_store)
  show ?case
  proof (cases "runs = []")
    case True
    with rest rs s have "snaps' = []" and "s = s1"
      by simp_all
    with store1 snaps show ?thesis
      by simp
  next
    case False
    let ?h1 = "drop (length (h0 @ [JObj snap]) - 200) (h0 @ [JObj snap])"
    have h1: "store_get s1 ''history'' (JArr []) = Inr (JArr ?h1)"
      by (simp add: store_get_def store1 dict_get_default_def)
    from rest rs s have run': "refresh_all runs s1 = (map Inr snaps', s)"
      by simp
    have "length snaps' = length runs"
      using refresh_all_length [OF run'] by simp
    with False have ne: "snaps' \<noteq> []"
      by auto
    have "snapshot s = JObj [(''latest'', JObj (last snaps')),
        (''history'', JArr (drop (length (?h1 @ map JObj snaps') - 200) (?h1 @ map JObj snaps')))]"
      using run' False h1 by (rule Cons.IH)
    also have "drop (length (?h1 @ map JObj snaps') - 200) (?h1 @ map JObj snaps')
        = drop (length ((h0 @ [JObj snap]) @ map JObj snaps') - 200) ((h0 @ [JObj snap]) @ map JObj snaps')"
      by (rule drop_recent_append)
    finally show ?thesis
      using ne by (simp add: snaps)
  qed
qed





lemma store_snapshot_status: "store_snapshot snap s = Inr s' \<Longrightarrow> refresh_status s' = refresh_status s"
  using store_snapshot_cases by fastforce

lemma refresh_try_untracked:
  assumes "refresh_try why False env s = (r, s')"
  shows "refresh_status s' = refresh_status s"
proof (cases "bind_err (news_raw env) (\<lambda>raw.
             bind_err (raise_if_av_error raw) (\<lambda>u. news_aggregate env raw))")
  case (Inl e)
  with assms show ?thesis
    by (simp add: refresh_try_def)
next
  case (Inr news_summary)
  show ?thesis
  proof (cases "build_snapshot why env s news_summary")
    case (Inl e)
    with assms Inr show ?thesis
      by (simp add: refresh_try_def)
  next
    case snap: (Inr snap)
    show ?thesis
    proof (cases "store_snapshot snap s")
      case (Inl e)
      with assms Inr snap show ?thesis
        by (simp add: refresh_try_def)
    next
      case s2: (Inr s2)
      with assms Inr snap have "s' = s2"
        by (cases "persist_error env") (simp_all add: refresh_try_def)
      with s2 show ?thesis
        by (simp add: store_snapshot_status)
    qed
  qed
qed

lemma refresh_once_untracked:
  assumes "refresh_once why False env s = (r, s')"
  shows "refresh_status s' = refresh_status s"
proof -
  obtain r1 s1 where t: "refresh_try why False env s = (r1, s1)"
    by (cases "refresh_try why False env s")
  with assms have "s' = s1"
    by (cases r1) (simp_all add: refresh_once_def refresh_finish_def refresh_marks_def refresh_begin_def)
  with refresh_try_untracked [OF t] show ?thesis
    by simp
qed

lemma refresh_once_failed:
  assumes "refresh_once why True env s = (Inl e, s')"
  shows "state (refresh_status s') = Failed \<and> error (refresh_status s') = Some e
    \<and> finished_at (refresh_status s') = Some (now_finished env)
    \<and> current_step (refresh_status s') = Some ''Failed''
    \<and> message (refresh_status s') = Some ''Refresh failed.''"
proof -
  let ?s0 = "refresh_marks True (refresh_begin why True env s)"
  obtain r1 s1 where t: "refresh_try why True env ?s0 = (r1, s1)"
    by (cases "refresh_try why True env ?s0")
  with assms show ?thesis
    by (cases r1) (auto simp: refresh_once_def refresh_finish_def)
qed

lemma same_snapshot_same_reads:
  assumes "snapshot s' = snapshot s"
  shows "get_latest s' = get_latest s" "get_history s' n = get_history s n"
  using assms by (simp_all add: get_latest_def get_history_def store_get_def)

lemma stored_in_latest: "stored_in s snap s' \<Longrightarrow> get_latest s' = Inr (JObj snap)"
  by (cases s, cases s')
    (auto simp: stored_in_def stored_def get_latest_def store_get_def dict_get_default_def)

text \<open>
  Claim C2, as the code has it. When a run of \<open>refresh_once\<close> raises, the exception
  goes on to the caller; under \<open>track_progress\<close> the status ends as \<open>failed\<close> with the
  exception captured, and without it the status is as it was. Unless the exception is
  the one of the disk write in \<open>_persist\<close>, the store is unchanged, and \<open>get_latest\<close>
  and \<open>get_history\<close> return what they returned before the run. When \<open>_persist\<close>
  raises, the store in memory already holds the new snapshot, which \<open>get_latest\<close>
  returns.
\<close>

theorem failed_refresh_effect:
  assumes "refresh_once why track_progress env s = (Inl e, s')"
  shows "(track_progress \<longrightarrow>
            state (refresh_status s') = Failed \<and> error (refresh_status s') = Some e)
    \<and> (\<not> track_progress \<longrightarrow> refresh_status s' = refresh_status s)
    \<and> (snapshot s' = snapshot s
         \<or> persist_error env = Some e \<and> (\<exists>snap. stored_in s snap s' \<and> get_latest s' = Inr (JObj snap)))
    \<and> (snapshot s' = snapshot s \<longrightarrow>
          get_latest s' = get_latest s \<and> (\<forall>n. get_history s' n = get_history s n))
    \<and> (persist_error env \<noteq> Some e \<longrightarrow> snapshot s' = snapshot s)"
proof -
  have tracked: "track_progress \<longrightarrow>
      state (refresh_status s') = Failed \<and> error (refresh_status s') = Some e"
  proof
    assume track_progress
    with assms have "refresh_once why True env s = (Inl e, s')"
      by simp
    from refresh_once_failed [OF this]
    show "state (refresh_status s') = Failed \<and> error (refresh_status s') = Some e"
      by simp
  qed
  have untracked: "\<not> track_progress \<longrightarrow> refresh_status s' = refresh_status s"
  proof
    assume "\<not> track_progress"
    with assms have "refresh_once why False env s = (Inl e, s')"
      by simp
    then show "refresh_status s' = refresh_status s"
      by (rule refresh_once_untracked)
  qed
  have store: "snapshot s' = snapshot s
      \<or> persist_error env = Some e \<and> (\<exists>snap. stored_in s snap s' \<and> get_latest s' = Inr (JObj snap))"
    using refresh_once_cases [OF assms] status_only_fields(1) stored_in_latest
    by (auto split: option.splits)
  then have other: "persist_error env \<noteq> Some e \<longrightarrow> snapshot s' = snapshot s"
    by blast
  have reads: "snapshot s' = snapshot s \<longrightarrow>
      get_latest s' = get_latest s \<and> (\<forall>n. get_history s' n = get_history s n)"
    using same_snapshot_same_reads by blast
  from tracked untracked store reads other show ?thesis
    by blast
qed

theorem failed_refresh_effect_witness:
  "refresh_once ''scheduled'' True
     \<lparr>now_start = ''t0'', stock_outcome = (\<lambda>i. Inl ''unavailable''),
      fx_outcome = (\<lambda>i. Inl ''unavailable''), crypto_outcome = (\<lambda>i. Inl ''unavailable''),
      news_raw = Inl (Raised ''timeout''), news_aggregate = (\<lambda>raw. Inr []),
      now_generated = ''t1'', persist_error = None, now_finished = ''t2''\<rparr>
     \<lparr>stocks = [], cryptos = [], fx_pairs = [], tz = ''UTC'',
      snapshot = JObj [(''latest'', JObj [(''generated_at'', JStr ''t'')]),
                       (''history'', JArr [JObj [(''generated_at'', JStr ''t'')]])],
      refresh_status = initial_status (JStr ''t''), refresh_task = None, tasks = [], stopping = None\<rparr>
   = (Inl (Raised ''timeout''),
      \<lparr>stocks = [], cryptos = [], fx_pairs = [], tz = ''UTC'',
       snapshot = JObj [(''latest'', JObj [(''generated_at'', JStr ''t'')]),
                        (''history'', JArr [JObj [(''generated_at'', JStr ''t'')]])],
       refresh_status =
         \<lparr>state = Failed, reason = Some ''scheduled'', started_at = Some ''t0'',
          finished_at = Some ''t2'', total_steps = 1, completed_steps = 0,
          progress_percent = 0, current_step = Some ''Failed'',
          message = Some ''Refresh failed.'', error = Some (Raised ''timeout''),
          latest_generated_at = JStr ''t''\<rparr>,
       refresh_task = None, tasks = [], stopping = None\<rparr>)
   \<and> get_latest
        \<lparr>stocks = [], cryptos = [], fx_pairs = [], tz = ''UTC'',
         snapshot = JObj [(''latest'', JObj [(''generated_at'', JStr ''t'')]),
                          (''history'', JArr [JObj [(''generated_at'', JStr ''t'')]])],
         refresh_status =
           \<lparr>state = Failed, reason = Some ''scheduled'', started_at = Some ''t0'',
            finished_at = Some ''t2'', total_steps = 1, completed_steps = 0,
            progress_percent = 0, current_step = Some ''Failed'',
            message = Some ''Refresh failed.'', error = Some (Raised ''timeout''),
            latest_generated_at = JStr ''t''\<rparr>,
         refresh_task = None, tasks = [], stopping = None\<rparr>
      = Inr (JObj [(''generated_at'', JStr ''t'')])"
  (is "?run = (Inl ?e, ?s') \<and> ?latest")
proof -
  have run: "?run = (Inl ?e, ?s')"
    by code_simp
  have "?latest"
    by (simp add: get_latest_def store_get_def dict_get_default_def)
  with failed_refresh_effect [OF run] run show ?thesis
    by simp
qed

text \<open>
  Claim C2 as stated fails for a disk write error: the run raises, and afterwards
  \<open>get_latest\<close> and \<open>get_history\<close> no longer return the values of the empty store they
  returned before.
\<close>

theorem persist_failure_changes_latest:
  "fst (refresh_once ''manual'' True
     \<lparr>now_start = ''t0'', stock_outcome = (\<lambda>i. Inl ''unavailable''),
      fx_outcome = (\<lambda>i. Inl ''unavailable''), crypto_outcome = (\<lambda>i. Inl ''unavailable''),
      news_raw = Inr (JObj []), news_aggregate = (\<lambda>raw. Inr []),
      now_generated = ''t1'', persist_error = Some (Raised ''disk full''), now_finished = ''t2''\<rparr>
     \<lparr>stocks = [], cryptos = [], fx_pairs = [], tz = ''UTC'', snapshot = JObj [],
      refresh_status = initial_status JNull, refresh_task = None, tasks = [], stopping = None\<rparr>)
     = Inl (Raised ''disk full'')
   \<and> get_latest
        \<lparr>stocks = [], cryptos = [], fx_pairs = [], tz = ''UTC'', snapshot = JObj [],
         refresh_status = initial_status JNull, refresh_task = None, tasks = [], stopping = None\<rparr>
      = Inr (JObj [])
   \<and> get_history
        \<lparr>stocks = [], cryptos = [], fx_pairs = [], tz = ''UTC'', snapshot = JObj [],
         refresh_status = initial_status JNull, refresh_task = None, tasks = [], stopping = None\<rparr> 48
      = Inr (JArr [])
   \<and> get_latest (snd (refresh_once ''manual'' True
     \<lparr>now_start = ''t0'', stock_outcome = (\<lambda>i. Inl ''unavailable''),
      fx_outcome = (\<lambda>i. Inl ''unavailable''), crypto_outcome = (\<lambda>i. Inl ''unavailable''),
      news_raw = Inr (JObj []), news_aggregate = (\<lambda>raw. Inr []),
      now_generated = ''t1'', persist_error = Some (Raised ''disk full''), now_finished = ''t2''\<rparr>
     \<lparr>stocks = [], cryptos = [], fx_pairs = [], tz = ''UTC'', snapshot = JObj [],
      refresh_status = initial_status JNull, refresh_task = None, tasks = [], stopping = None\<rparr>))
      \<noteq> Inr (JObj [])
   \<and> get_history (snd (refresh_once ''manual'' True
     \<lparr>now_start = ''t0'', stock_outcome = (\<lambda>i. Inl ''unavailable''),
      fx_outcome = (\<lambda>i. Inl ''unavailable''), crypto_outcome = (\<lambda>i. Inl ''unavailable''),
      news_raw = Inr (JObj []), news_aggregate = (\<lambda>raw. Inr []),
      now_generated = ''t1'', persist_error = Some (Raised ''disk full''), now_finished = ''t2''\<rparr>
     \<lparr>stocks = [], cryptos = [], fx_pairs = [], tz = ''UTC'', snapshot = JObj [],
      refresh_status = initial_status JNull, refresh_task = None, tasks = [], stopping = None\<rparr>)) 48
      \<noteq> Inr (JArr [])"
  by code_simp

section \<open>Single-flight refresh\<close>

lemma stored_in_fields:
  assumes "stored_in s snap s'"
  shows "tasks s' = tasks s" "refresh_task s' = refresh_task s" "stopping s' = stopping s"
  using assms by (cases s, cases s', auto simp: stored_in_def)+

lemma refresh_finish_control:
  "tasks (snd (refresh_finish why track env s)) = tasks s"
  "refresh_task (snd (refresh_finish why track env s)) = refresh_task s"
  "stopping (snd (refresh_finish why track env s)) = stopping s"
proof -
  obtain r s' where run: "refresh_finish why track env s = (r, s')"
    by (cases "refresh_finish why track env s")
  from refresh_finish_cases [OF run]
  have "tasks s' = tasks s \<and> refresh_task s' = refresh_task s \<and> stopping s' = stopping s"
    using status_only_fields(2-4) stored_in_fields by metis
  then show "tasks (snd (refresh_finish why track env s)) = tasks s"
    "refresh_task (snd (refresh_finish why track env s)) = refresh_task s"
    "stopping (snd (refresh_finish why track env s)) = stopping s"
    by (simp_all add: run)
qed

lemma set_phase_control [simp]:
  "tasks (set_phase t p s) = (tasks s)[t := (tasks s ! t)\<lparr>phase := p\<rparr>]"
  "refresh_task (set_phase t p s) = refresh_task s"
  "stopping (set_phase t p s) = stopping s"
  by (simp_all add: set_phase_def)

lemma in_flight_set_phase:
  "in_flight (set_phase t p s) u =
     (u < length (tasks s) \<and> (if u = t then p \<noteq> Finished else phase (tasks s ! u) \<noteq> Finished))"
  by (auto simp: in_flight_def nth_list_update)

lemma in_flight_same_tasks: "tasks s' = tasks s \<Longrightarrow> in_flight s' u = in_flight s u"
  by (simp add: in_flight_def)

lemma running_iff:
  assumes "single_flight s"
  shows "running s = (\<exists>t. in_flight s t)"
proof
  assume "running s"
  then obtain t where t: "refresh_task s = Some t" "\<not> task_done s t"
    by (auto simp: running_def split: option.splits)
  with assms have "t < length (tasks s)"
    by (simp add: single_flight_def)
  with t show "\<exists>t. in_flight s t"
    by (auto simp: in_flight_def task_done_def)
next
  assume "\<exists>t. in_flight s t"
  then obtain t where t: "in_flight s t" ..
  with assms have "refresh_task s = Some t"
    by (simp add: single_flight_def)
  with t show "running s"
    by (simp add: running_def task_done_def in_flight_def)
qed

lemma single_flight_start:
  assumes "single_flight s" and "stopping s = None"
  shows "single_flight (snd (start_refresh why now s))"
proof (cases "running s")
  case True
  with assms(1) show ?thesis
    by (simp add: start_refresh_def)
next
  case False
  with assms(1) have none: "\<forall>t. \<not> in_flight s t"
    by (simp add: running_iff)
  let ?s' = "snd (start_refresh why now s)"
  from False have t': "tasks ?s' = tasks s @ [\<lparr>phase = Queued, task_reason = why\<rparr>]"
    and r': "refresh_task ?s' = Some (length (tasks s))" and st': "stopping ?s' = stopping s"
    by (simp_all add: start_refresh_def Let_def)
  have "in_flight ?s' u \<longrightarrow> u = length (tasks s)" for u
    using none [rule_format, of u]
    by (auto simp: in_flight_def t' nth_append split: if_splits)
  with r' t' st' assms(2) show ?thesis
    by (simp add: single_flight_def)
qed

lemma single_flight_phase:
  assumes "single_flight s" and "in_flight s t"
    and "tasks s' = (tasks s)[t := (tasks s ! t)\<lparr>phase := p\<rparr>]"
    and "refresh_task s' = refresh_task s" and "stopping s' = stopping s"
  shows "single_flight s'"
proof -
  have sub: "in_flight s' u \<Longrightarrow> in_flight s u" for u
    using assms(2,3) by (auto simp: in_flight_def nth_list_update split: if_splits)
  have len: "length (tasks s') = length (tasks s)"
    by (simp add: assms(3))
  from assms(1) sub show ?thesis
    unfolding single_flight_def assms(4,5) len by blast
qed

lemma single_flight_done:
  assumes "single_flight s" and "in_flight s t"
    and "tasks s' = (tasks s)[t := (tasks s ! t)\<lparr>phase := Finished\<rparr>]"
    and "refresh_task s' = None" and "stopping s' = stopping s"
  shows "single_flight s'"
proof -
  have "\<not> in_flight s' u" for u
  proof
    assume u: "in_flight s' u"
    then have "u \<noteq> t"
      using assms(3) by (auto simp: in_flight_def)
    with u assms(3) have "in_flight s u"
      by (auto simp: in_flight_def)
    with assms(1) have "refresh_task s = Some u"
      by (simp add: single_flight_def)
    moreover from assms(1,2) have "refresh_task s = Some t"
      by (simp add: single_flight_def)
    ultimately have "u = t"
      by simp
    with \<open>u \<noteq> t\<close> show False
      by simp
  qed
  with assms(4) show ?thesis
    by (simp add: single_flight_def)
qed

lemma reachable_single_flight: "reachable s \<Longrightarrow> single_flight s"
proof (induction rule: reachable.induct)
  case (constructed watch_stocks watch_cryptos watch_fx zone doc s)
  then show ?case
    by (auto simp: new_service_def single_flight_def in_flight_def split: json.splits)
next
  case (started s why now)
  then show ?case
    by (simp add: single_flight_start)
next
  case (begun s t env)
  let ?s0 = "refresh_begin (task_reason (tasks s ! t)) True env s"
  have so: "status_only s ?s0"
    by (rule status_only_begin)
  from begun have "in_flight s t"
    by (simp add: in_flight_def)
  with begun.IH show ?case
    by (rule single_flight_phase [where t = t and p = "Started 0"])
      (simp_all add: task_begin_def status_only_fields [OF so])
next
  case (marked s t k)
  let ?s0 = "mark_step (step_labels s ! k) (Suc k) s"
  have so: "status_only s ?s0"
    by (rule status_only_mark)
  from marked have "in_flight s t"
    by (simp add: in_flight_def)
  with marked.IH show ?case
    by (rule single_flight_phase [where t = t and p = "Started (Suc k)"])
      (simp_all add: task_mark_def status_only_fields [OF so])
next
  case (finished s t k env)
  from finished have "in_flight s t"
    by (simp add: in_flight_def)
  with finished.IH show ?case
    by (rule single_flight_done [where t = t])
      (simp_all add: task_finish_def refresh_finish_control)
next
  case (stop_called s t)
  have same: "in_flight (stop_cancel t s) u = in_flight s u" for u
    by (simp add: in_flight_def stop_cancel_def)
  have only: "in_flight s u \<Longrightarrow> u = t" for u
  proof -
    assume "in_flight s u"
    with stop_called.IH have "refresh_task s = Some u"
      by (simp add: single_flight_def)
    with stop_called.hyps(3) show "u = t"
      by simp
  qed
  from stop_called.IH have "\<forall>u. in_flight s u \<longrightarrow> refresh_task s = Some u"
    and "\<forall>u. refresh_task s = Some u \<longrightarrow> u < length (tasks s)"
    by (simp_all add: single_flight_def)
  with only show ?case
    unfolding single_flight_def same
    by (simp add: stop_cancel_def)
next
  case (cancelled s t)
  show ?case
  proof (cases "phase (tasks s ! t)")
    case Queued
    have "single_flight (set_phase t Finished s)"
      using cancelled.IH cancelled.hyps(3)
      by (rule single_flight_phase [where t = t and p = Finished]) simp_all
    with Queued show ?thesis
      by (simp add: task_cancelled_def)
  next
    case (Started k)
    have "single_flight ((set_phase t Finished s)\<lparr>refresh_task := None\<rparr>)"
      using cancelled.IH cancelled.hyps(3)
      by (rule single_flight_done [where t = t]) simp_all
    with Started show ?thesis
      by (simp add: task_cancelled_def)
  next
    case Finished
    with cancelled.IH show ?thesis
      by (simp add: task_cancelled_def)
  qed
next
  case (stop_returned s t)
  have none: "\<not> in_flight s u" for u
  proof
    assume u: "in_flight s u"
    with stop_returned.IH stop_returned.hyps(2) have "u = t"
      by (simp add: single_flight_def)
    with u stop_returned.hyps(3) show False
      by (simp add: in_flight_def task_done_def)
  qed
  have "in_flight (stop_resume s) u = in_flight s u" for u
    by (simp add: in_flight_def stop_resume_def)
  with none show ?case
    by (simp add: single_flight_def stop_resume_def)
qed


lemma executing_in_flight: "executing s t \<Longrightarrow> in_flight s t"
  by (auto simp: executing_def in_flight_def split: task_phase.splits)

lemma in_flight_unique:
  assumes "single_flight s" and "in_flight s t" and "in_flight s u"
  shows "t = u"
proof -
  from assms(1,2) have "refresh_task s = Some t"
    by (simp add: single_flight_def)
  moreover from assms(1,3) have "refresh_task s = Some u"
    by (simp add: single_flight_def)
  ultimately show ?thesis
    by simp
qed

lemma start_refresh_rejected:
  assumes "running s"
  shows "start_refresh why now s =
    (\<lparr>accepted = False,
      status_of = \<lparr>status_fields = refresh_status s, is_running = Some True\<rparr>\<rparr>, s)"
  using assms by (simp add: start_refresh_def get_refresh_status_def)

lemma start_refresh_accepted:
  assumes "\<not> running s"
  shows "\<exists>st. start_refresh why now s =
      (\<lparr>accepted = True, status_of = \<lparr>status_fields = st, is_running = None\<rparr>\<rparr>,
       s\<lparr>refresh_status := st,
         tasks := tasks s @ [\<lparr>phase = Queued, task_reason = why\<rparr>],
         refresh_task := Some (length (tasks s))\<rparr>)
    \<and> state st = Running \<and> reason st = Some why"
  using assms by (simp add: start_refresh_def Let_def)




lemma set_tasks_derived [simp]:
  "total_steps_of (s\<lparr>tasks := ts\<rparr>) = total_steps_of s"
  "step_labels (s\<lparr>tasks := ts\<rparr>) = step_labels s"
  "store_get (s\<lparr>tasks := ts\<rparr>) k dflt = store_get s k dflt"
  by (simp_all add: total_steps_of_def step_labels_def store_get_def)

lemma mark_step_tasks: "mark_step l c (s\<lparr>tasks := ts\<rparr>) = (mark_step l c s)\<lparr>tasks := ts\<rparr>"
  by (simp add: mark_step_def)

lemma build_snapshot_tasks [simp]:
  "build_snapshot why env (s\<lparr>tasks := ts\<rparr>) news = build_snapshot why env s news"
  by (simp add: build_snapshot_def)

lemma store_snapshot_tasks:
  "store_snapshot snap (s\<lparr>tasks := ts\<rparr>) = map_sum id (\<lambda>x. x\<lparr>tasks := ts\<rparr>) (store_snapshot snap s)"
  by (auto simp: store_snapshot_def bind_err_def split: sum.splits json.splits)

lemma refresh_try_tasks:
  "refresh_try why track env (s\<lparr>tasks := ts\<rparr>)
     = map_prod id (\<lambda>x. x\<lparr>tasks := ts\<rparr>) (refresh_try why track env s)"
  by (auto simp: refresh_try_def Let_def mark_step_tasks store_snapshot_tasks
      split: sum.splits option.splits)

lemma refresh_finish_tasks:
  "refresh_finish why track env (s\<lparr>tasks := ts\<rparr>)
     = map_prod id (\<lambda>x. x\<lparr>tasks := ts\<rparr>) (refresh_finish why track env s)"
  by (auto simp: refresh_finish_def refresh_try_tasks split: prod.splits sum.splits)


lemma set_phase_twice:
  "t < length (tasks s) \<Longrightarrow> set_phase t q (set_phase t p s) = set_phase t q s"
  by (simp add: set_phase_def)

lemma set_phase_tasks_eq:
  "tasks s' = tasks s \<Longrightarrow> set_phase t p s' = s'\<lparr>tasks := (tasks s)[t := (tasks s ! t)\<lparr>phase := p\<rparr>]\<rparr>"
  by (simp add: set_phase_def)

lemma mark_step_set_phase:
  "mark_step l c (set_phase t p s) = set_phase t p (mark_step l c s)"
  using status_only_fields(2) [OF status_only_mark, of l c s]
  by (simp add: set_phase_def mark_step_tasks)

lemma step_labels_set_phase [simp]: "step_labels (set_phase t p s) = step_labels s"
  by (simp add: set_phase_def)

lemma tasks_fold_marks:
  "tasks (fold (\<lambda>(i, l). mark_step l (Suc i)) xs s) = tasks s"
  using status_only_fields(2) [OF status_only_fold_marks] .

lemma task_marks_fold:
  assumes "t < length (tasks s)" and "n \<le> length (step_labels s)"
  shows "fold (task_mark t) [0..<n] (set_phase t (Started 0) s)
    = set_phase t (Started n)
        (fold (\<lambda>(i, l). mark_step l (Suc i)) (enumerate 0 (take n (step_labels s))) s)"
  using assms(2)
proof (induction n)
  case 0
  then show ?case by simp
next
  case (Suc n)
  let ?marks = "\<lambda>m. fold (\<lambda>(i, l). mark_step l (Suc i)) (enumerate 0 (take m (step_labels s))) s"
  from Suc.prems have n: "n < length (step_labels s)"
    by simp
  have labels: "step_labels (?marks n) = step_labels s"
    using status_only_derived(2) [OF status_only_fold_marks] .
  have len: "t < length (tasks (?marks n))"
    using assms(1) by (simp add: tasks_fold_marks)
  have "take (Suc n) (step_labels s) = take n (step_labels s) @ [step_labels s ! n]"
    using n by (rule take_Suc_conv_app_nth)
  then have next_marks: "?marks (Suc n) = mark_step (step_labels s ! n) (Suc n) (?marks n)"
    using n by (simp add: enumerate_append_eq)
  have "fold (task_mark t) [0..<Suc n] (set_phase t (Started 0) s)
      = task_mark t n (fold (task_mark t) [0..<n] (set_phase t (Started 0) s))"
    by simp
  also have "\<dots> = task_mark t n (set_phase t (Started n) (?marks n))"
    using Suc.IH n by simp
  also have "\<dots> = set_phase t (Started (Suc n)) (mark_step (step_labels s ! n) (Suc n) (?marks n))"
    by (simp add: task_mark_def labels mark_step_set_phase set_phase_twice
        status_only_fields(2) [OF status_only_mark] len)
  finally show ?case
    by (simp only: next_marks)
qed

text \<open>
  The steps of a task, taken together, are \<open>refresh_once\<close> with \<open>track_progress\<close>
  followed by the \<open>finally\<close> clause of \<open>_run_refresh_task\<close>.
\<close>

lemma run_task_is_refresh_once:
  assumes "t < length (tasks s)"
  shows "run_task t env s =
    (set_phase t Finished
       (snd (refresh_once (task_reason (tasks s ! t)) True env s)))\<lparr>refresh_task := None\<rparr>"
proof -
  let ?why = "task_reason (tasks s ! t)"
  let ?b = "refresh_begin ?why True env s"
  let ?m = "refresh_marks True ?b"
  let ?n = "length (step_labels s)"
  have so_b: "status_only s ?b"
    by (rule status_only_begin)
  have so_m: "status_only s ?m"
    using so_b status_only_marks by (rule status_only_trans)
  have tb: "tasks ?b = tasks s" and lb: "step_labels ?b = step_labels s"
    using status_only_fields(2) [OF so_b] status_only_derived(2) [OF so_b] by simp_all
  have tm: "tasks ?m = tasks s"
    using status_only_fields(2) [OF so_m] .
  have "fold (task_mark t) [0..<?n] (task_begin t env s)
      = set_phase t (Started ?n)
          (fold (\<lambda>(i, l). mark_step l (Suc i)) (enumerate 0 (take ?n (step_labels ?b))) ?b)"
    unfolding task_begin_def
    using task_marks_fold [of t ?b ?n] assms by (simp add: tb lb)
  also have "\<dots> = set_phase t (Started ?n) ?m"
    by (simp add: refresh_marks_def lb)
  finally have marked: "fold (task_mark t) [0..<?n] (task_begin t env s) = set_phase t (Started ?n) ?m" .
  let ?ts = "(tasks s)[t := (tasks s ! t)\<lparr>phase := Started ?n\<rparr>]"
  have y: "set_phase t (Started ?n) ?m = ?m\<lparr>tasks := ?ts\<rparr>"
    using tm by (rule set_phase_tasks_eq)
  obtain r s' where fin: "refresh_finish ?why True env ?m = (r, s')"
    by (cases "refresh_finish ?why True env ?m")
  then have once: "snd (refresh_once ?why True env s) = s'"
    by (simp add: refresh_once_def)
  have ts': "tasks s' = tasks s"
    using refresh_finish_control(1) [of ?why True env ?m] fin tm by simp
  have "run_task t env s = task_finish t env (?m\<lparr>tasks := ?ts\<rparr>)"
    by (simp only: run_task_def marked y)
  also have "\<dots> = (set_phase t Finished (s'\<lparr>tasks := ?ts\<rparr>))\<lparr>refresh_task := None\<rparr>"
    using assms by (simp add: task_finish_def refresh_finish_tasks fin)
  also have "set_phase t Finished (s'\<lparr>tasks := ?ts\<rparr>) = set_phase t Finished s'"
    using assms by (simp add: set_phase_def ts')
  finally show ?thesis
    by (simp only: once)
qed

text \<open>
  Why the transitions leave out a call of \<open>start_refresh\<close> while \<open>stop()\<close> waits for
  the task it has cancelled: \<open>stop()\<close> ends with \<open>self._refresh_task = None\<close>, which
  would then clear the handle of the task started in between, and the next
  \<open>start_refresh\<close> would be accepted with that task in flight.
\<close>

lemma start_while_stop_waits:
  "in_flight
     (stop_resume (snd (start_refresh ''manual'' ''t1'' (task_cancelled 0 (stop_cancel 0
        \<lparr>stocks = [''AAPL''], cryptos = [], fx_pairs = [], tz = ''UTC'', snapshot = JObj [],
      refresh_status = initial_status JNull, refresh_task = Some 0,
      tasks = [\<lparr>phase = Queued, task_reason = ''manual''\<rparr>], stopping = None\<rparr>))))) 1
   \<and> \<not> running
     (stop_resume (snd (start_refresh ''manual'' ''t1'' (task_cancelled 0 (stop_cancel 0
        \<lparr>stocks = [''AAPL''], cryptos = [], fx_pairs = [], tz = ''UTC'', snapshot = JObj [],
      refresh_status = initial_status JNull, refresh_task = Some 0,
      tasks = [\<lparr>phase = Queued, task_reason = ''manual''\<rparr>], stopping = None\<rparr>)))))"
  by (simp add: stop_resume_def start_refresh_def task_cancelled_def stop_cancel_def
      set_phase_def running_def task_done_def in_flight_def Let_def)

end
